theory Spec2Isabelle
  imports Main "HOL-Library.Word"
begin

section \<open>Python strings\<close>

text \<open>
  A Python \<^verbatim>\<open>str\<close> is a sequence of Unicode code points, and \<^verbatim>\<open>len\<close> counts code
  points. A string is therefore modelled as the list of its code points. \<open>py\<close> turns
  an ASCII literal into such a list.
\<close>

type_synonym pystr = "nat list"

definition py :: "string \<Rightarrow> pystr" where
  "py s = map of_char s"

text \<open>
  \<^verbatim>\<open>str.split()\<close>, \<^verbatim>\<open>str.strip()\<close> and the \<^verbatim>\<open>\s\<close> class of \<^verbatim>\<open>re\<close> on \<^verbatim>\<open>str\<close>
  patterns all use CPython's \<^verbatim>\<open>Py_UNICODE_ISSPACE\<close>: the code points below.
\<close>

definition isspace :: "nat \<Rightarrow> bool" where
  "isspace c \<longleftrightarrow>
     (0x09 \<le> c \<and> c \<le> 0x0D) \<or> (0x1C \<le> c \<and> c \<le> 0x20) \<or> c = 0x85 \<or> c = 0xA0 \<or>
     c = 0x1680 \<or> (0x2000 \<le> c \<and> c \<le> 0x200A) \<or> c = 0x2028 \<or> c = 0x2029 \<or>
     c = 0x202F \<or> c = 0x205F \<or> c = 0x3000"

text \<open>The character class \<^verbatim>\<open>[!?.]\<close> of the two regular expressions.\<close>

definition is_punct :: "nat \<Rightarrow> bool" where
  "is_punct c \<longleftrightarrow> c \<in> set (py ''!?.'')"

text \<open>\<^verbatim>\<open>text.split()\<close>: the maximal runs of non-whitespace characters, in order.\<close>

function split_ws :: "pystr \<Rightarrow> pystr list" where
  "split_ws s =
     (case dropWhile isspace s of
        [] \<Rightarrow> []
      | c # cs \<Rightarrow> takeWhile (Not \<circ> isspace) (c # cs) #
                 split_ws (dropWhile (Not \<circ> isspace) cs))"
  by pat_completeness auto
termination
proof (relation "measure length")
  fix s :: pystr and c cs
  assume "dropWhile isspace s = c # cs"
  then have "length (c # cs) \<le> length s"
    by (metis length_dropWhile_le)
  moreover have "length (dropWhile (Not \<circ> isspace) cs) \<le> length cs"
    by (rule length_dropWhile_le)
  ultimately show "(dropWhile (Not \<circ> isspace) cs, s) \<in> measure length"
    by simp
qed simp

declare split_ws.simps [simp del]

text \<open>\<^verbatim>\<open>sep.join(xs)\<close>.\<close>

fun join :: "pystr \<Rightarrow> pystr list \<Rightarrow> pystr" where
  "join sep [] = []"
| "join sep [x] = x"
| "join sep (x # y # ys) = x @ sep @ join sep (y # ys)"

text \<open>
  \<^verbatim>\<open>re.sub(r'([!?.]){2,}', r'\1', text)\<close>: scanning from the left, a position where the
  greedy repetition matches at least two characters is replaced by group 1, which
  holds the last character the repetition matched, and the scan goes on behind the
  match; any other character is copied.
\<close>

function sub_punct :: "pystr \<Rightarrow> pystr" where
  "sub_punct [] = []"
| "sub_punct (c # cs) =
     (let run = takeWhile is_punct (c # cs) in
      if 2 \<le> length run then last run # sub_punct (dropWhile is_punct (c # cs))
      else c # sub_punct cs)"
  by pat_completeness auto
termination
proof (relation "measure length")
  fix c :: nat and cs run
  assume "run = takeWhile is_punct (c # cs)" and "2 \<le> length run"
  then have "is_punct c"
    by (cases "is_punct c") auto
  then have "dropWhile is_punct (c # cs) = dropWhile is_punct cs"
    by simp
  moreover have "length (dropWhile is_punct cs) \<le> length cs"
    by (rule length_dropWhile_le)
  ultimately show "(dropWhile is_punct (c # cs), c # cs) \<in> measure length"
    by simp
qed simp_all

declare sub_punct.simps(2) [simp del]

text \<open>\<^verbatim>\<open>text.strip()\<close>.\<close>

definition strip :: "pystr \<Rightarrow> pystr" where
  "strip s = rev (dropWhile isspace (rev (dropWhile isspace s)))"

subsection \<open>\<^verbatim>\<open>utils/text_preprocessing.py\<close>\<close>

definition preprocess_text :: "pystr \<Rightarrow> pystr" where
  "preprocess_text text =
     (if text = [] then text
      else strip (sub_punct (join (py '' '') (split_ws text))))"

definition wordlist :: "pystr list \<Rightarrow> bool" where
  "wordlist ws \<longleftrightarrow> (\<forall>w\<in>set ws. w \<noteq> [] \<and> (\<forall>c\<in>set w. \<not> isspace c))"

text \<open>
  \<^verbatim>\<open>re.split(r'([.!?]+\s+)', text)\<close>. A match of \<^verbatim>\<open>[.!?]+\s+\<close> at the head of a string is
  the maximal run of terminators followed by the maximal run of whitespace, both
  non-empty: the classes are disjoint, so no shorter run of terminators is followed by
  whitespace. \<open>match_delim\<close> returns the matched text and the rest.
\<close>

definition match_delim :: "pystr \<Rightarrow> (pystr \<times> pystr) option" where
  "match_delim s =
     (let p = takeWhile is_punct s;
          r = dropWhile is_punct s;
          w = takeWhile isspace r
      in if p \<noteq> [] \<and> w \<noteq> [] then Some (p @ w, dropWhile isspace r) else None)"

lemma match_delim_shorter:
  assumes "match_delim s = Some (m, rest)"
  shows "length rest < length s"
proof -
  have "length s = length (takeWhile is_punct s) + length (dropWhile is_punct s)"
    by (metis length_append takeWhile_dropWhile_id)
  moreover have "length (dropWhile isspace (dropWhile is_punct s)) \<le> length (dropWhile is_punct s)"
    by (rule length_dropWhile_le)
  moreover have "takeWhile is_punct s \<noteq> []" and "rest = dropWhile isspace (dropWhile is_punct s)"
    using assms by (auto simp: match_delim_def Let_def split: if_splits)
  ultimately show ?thesis
    by (cases "takeWhile is_punct s") auto
qed

text \<open>
  The scan of \<^verbatim>\<open>re.split\<close> with one capture group: the text before the leftmost match,
  then the match, then the split of what follows; \<open>cur\<close> is the text read since the
  last match.
\<close>

function re_split :: "pystr \<Rightarrow> pystr \<Rightarrow> pystr list" where
  "re_split cur [] = [cur]"
| "re_split cur (c # cs) =
     (case match_delim (c # cs) of
        Some (m, rest) \<Rightarrow> cur # m # re_split [] rest
      | None \<Rightarrow> re_split (cur @ [c]) cs)"
  by pat_completeness auto
termination
  by (relation "measure (\<lambda>(cur, s). length s)") (auto dest: match_delim_shorter)

declare re_split.simps(2) [simp del]

text \<open>
  One round of the loop of \<^verbatim>\<open>chunk_text\<close>; the state is \<^verbatim>\<open>(chunks, current_chunk)\<close>.
\<close>

definition chunk_step ::
  "int \<Rightarrow> pystr \<Rightarrow> pystr \<Rightarrow> pystr list \<times> pystr \<Rightarrow> pystr list \<times> pystr" where
  "chunk_step max_length sentence punctuation st =
     (let chunks = fst st; current_chunk = snd st;
          full_sentence = sentence @ punctuation
      in if int (length current_chunk) + int (length full_sentence) \<le> max_length
         then (chunks, current_chunk @ full_sentence)
         else ((if current_chunk \<noteq> [] then chunks @ [strip current_chunk] else chunks),
               full_sentence))"

text \<open>
  \<^verbatim>\<open>for i in range(0, len(sentences), 2)\<close>: the elements are taken two at a time, and the
  punctuation of a last element without a successor is the empty string.
\<close>

fun chunk_loop :: "int \<Rightarrow> pystr list \<Rightarrow> pystr list \<times> pystr \<Rightarrow> pystr list \<times> pystr" where
  "chunk_loop max_length [] st = st"
| "chunk_loop max_length [sentence] st = chunk_step max_length sentence [] st"
| "chunk_loop max_length (sentence # punctuation # rest) st =
     chunk_loop max_length rest (chunk_step max_length sentence punctuation st)"

definition chunk_text :: "pystr \<Rightarrow> int \<Rightarrow> pystr list" where
  "chunk_text text max_length =
     (if int (length text) \<le> max_length then [text]
      else
        let sentences = re_split [] text;
            st = chunk_loop max_length sentences ([], []);
            chunks = fst st; current_chunk = snd st
        in if current_chunk \<noteq> [] then chunks @ [strip current_chunk] else chunks)"


section \<open>The cache key\<close>

subsection \<open>\<^verbatim>\<open>str.encode('utf-8')\<close>\<close>

datatype exn =
    UnicodeEncodeError
  | ValueError pystr
  | KeyError
  | RedisError
  | BadRequest
  | EngineError pystr

text \<open>
  The strict UTF-8 codec refuses the surrogate code points; a \<^verbatim>\<open>str\<close> holds no code
  point above \<open>0x10FFFF\<close>.
\<close>

definition encodable :: "pystr \<Rightarrow> bool" where
  "encodable s = list_all (\<lambda>c. c < 0xD800 \<or> (0xDFFF < c \<and> c \<le> 0x10FFFF)) s"

definition utf8_char :: "nat \<Rightarrow> nat list" where
  "utf8_char c =
     (if c < 0x80 then [c]
      else if c < 0x800 then [0xC0 + c div 64, 0x80 + c mod 64]
      else if c < 0x10000 then [0xE0 + c div 4096, 0x80 + c div 64 mod 64, 0x80 + c mod 64]
      else [0xF0 + c div 262144, 0x80 + c div 4096 mod 64, 0x80 + c div 64 mod 64,
            0x80 + c mod 64])"

definition utf8_encode :: "pystr \<Rightarrow> exn + nat list" where
  "utf8_encode s = (if encodable s then Inr (concat (map utf8_char s)) else Inl UnicodeEncodeError)"

subsection \<open>\<^verbatim>\<open>hashlib.md5(...).hexdigest()\<close> (RFC 1321)\<close>

definition le_bytes :: "nat \<Rightarrow> nat \<Rightarrow> nat list" where
  "le_bytes n v = map (\<lambda>k. v div 256 ^ k mod 256) [0..<n]"

definition md5_pad :: "nat list \<Rightarrow> nat list" where
  "md5_pad bs =
     bs @ [0x80] @ replicate ((119 - length bs mod 64) mod 64) 0 @
     le_bytes 8 (8 * length bs mod 2 ^ 64)"

fun chop :: "nat \<Rightarrow> 'a list \<Rightarrow> 'a list list" where
  "chop n [] = []"
| "chop n (x # xs) = (if n = 0 then [] else take n (x # xs) # chop n (drop n (x # xs)))"

declare chop.simps(2) [simp del]

definition md5_K :: "32 word list" where
  "md5_K =
     [0xd76aa478, 0xe8c7b756, 0x242070db, 0xc1bdceee, 0xf57c0faf, 0x4787c62a, 0xa8304613,
      0xfd469501, 0x698098d8, 0x8b44f7af, 0xffff5bb1, 0x895cd7be, 0x6b901122, 0xfd987193,
      0xa679438e, 0x49b40821, 0xf61e2562, 0xc040b340, 0x265e5a51, 0xe9b6c7aa, 0xd62f105d,
      0x02441453, 0xd8a1e681, 0xe7d3fbc8, 0x21e1cde6, 0xc33707d6, 0xf4d50d87, 0x455a14ed,
      0xa9e3e905, 0xfcefa3f8, 0x676f02d9, 0x8d2a4c8a, 0xfffa3942, 0x8771f681, 0x6d9d6122,
      0xfde5380c, 0xa4beea44, 0x4bdecfa9, 0xf6bb4b60, 0xbebfbc70, 0x289b7ec6, 0xeaa127fa,
      0xd4ef3085, 0x04881d05, 0xd9d4d039, 0xe6db99e5, 0x1fa27cf8, 0xc4ac5665, 0xf4292244,
      0x432aff97, 0xab9423a7, 0xfc93a039, 0x655b59c3, 0x8f0ccc92, 0xffeff47d, 0x85845dd1,
      0x6fa87e4f, 0xfe2ce6e0, 0xa3014314, 0x4e0811a1, 0xf7537e82, 0xbd3af235, 0x2ad7d2bb,
      0xeb86d391]"

definition md5_S :: "nat list" where
  "md5_S =
     [7, 12, 17, 22, 7, 12, 17, 22, 7, 12, 17, 22, 7, 12, 17, 22,
      5, 9, 14, 20, 5, 9, 14, 20, 5, 9, 14, 20, 5, 9, 14, 20,
      4, 11, 16, 23, 4, 11, 16, 23, 4, 11, 16, 23, 4, 11, 16, 23,
      6, 10, 15, 21, 6, 10, 15, 21, 6, 10, 15, 21, 6, 10, 15, 21]"

unbundle bit_operations_syntax

definition md5_F :: "nat \<Rightarrow> 32 word \<Rightarrow> 32 word \<Rightarrow> 32 word \<Rightarrow> 32 word" where
  "md5_F i b c d =
     (if i < 16 then (b AND c) OR (NOT b AND d)
      else if i < 32 then (d AND b) OR (NOT d AND c)
      else if i < 48 then b XOR c XOR d
      else c XOR (b OR NOT d))"

definition md5_G :: "nat \<Rightarrow> nat" where
  "md5_G i =
     (if i < 16 then i
      else if i < 32 then (5 * i + 1) mod 16
      else if i < 48 then (3 * i + 5) mod 16
      else (7 * i) mod 16)"

definition rotl32 :: "nat \<Rightarrow> 32 word \<Rightarrow> 32 word" where
  "rotl32 n w = push_bit n w OR drop_bit (32 - n) w"

type_synonym md5_state = "32 word \<times> 32 word \<times> 32 word \<times> 32 word"

definition md5_round :: "32 word list \<Rightarrow> nat \<Rightarrow> md5_state \<Rightarrow> md5_state" where
  "md5_round M i st =
     (case st of (a, b, c, d) \<Rightarrow>
        (d, b + rotl32 (md5_S ! i) (a + md5_F i b c d + md5_K ! i + M ! md5_G i), b, c))"

definition md5_block :: "nat list \<Rightarrow> md5_state \<Rightarrow> md5_state" where
  "md5_block block st =
     (let M = map (\<lambda>bs. of_nat (foldr (\<lambda>b v. b + 256 * v) bs 0)) (chop 4 block) in
      case st of (a0, b0, c0, d0) \<Rightarrow>
        (case fold (md5_round M) [0..<64] st of (a, b, c, d) \<Rightarrow>
           (a0 + a, b0 + b, c0 + c, d0 + d)))"

definition md5 :: "nat list \<Rightarrow> nat list" where
  "md5 bs =
     (case fold md5_block (chop 64 (md5_pad bs))
             (0x67452301, 0xefcdab89, 0x98badcfe, 0x10325476) of
        (a, b, c, d) \<Rightarrow> concat (map (\<lambda>w. le_bytes 4 (unat w)) [a, b, c, d]))"

definition hex_byte :: "nat \<Rightarrow> pystr" where
  "hex_byte b = [py ''0123456789abcdef'' ! (b div 16 mod 16), py ''0123456789abcdef'' ! (b mod 16)]"

definition hexdigest :: "nat list \<Rightarrow> pystr" where
  "hexdigest bs = concat (map hex_byte bs)"

subsection \<open>\<^verbatim>\<open>TranslationCache._generate_key\<close>\<close>

definition generate_key :: "pystr \<Rightarrow> pystr \<Rightarrow> pystr \<Rightarrow> exn + pystr" where
  "generate_key text source_lang target_lang =
     (case utf8_encode text of
        Inl e \<Rightarrow> Inl e
      | Inr bs \<Rightarrow>
          let text_hash = take 16 (hexdigest (md5 bs)) in
          Inr (py ''trans:'' @ source_lang @ py '':'' @ target_lang @ py '':'' @ text_hash))"


section \<open>\<^verbatim>\<open>postprocess_text\<close>\<close>

definition is_punct2 :: "nat \<Rightarrow> bool" where
  "is_punct2 c \<longleftrightarrow> c \<in> set (py '',.!?;:'')"

definition is_ascii_letter :: "nat \<Rightarrow> bool" where
  "is_ascii_letter c \<longleftrightarrow> (65 \<le> c \<and> c \<le> 90) \<or> (97 \<le> c \<and> c \<le> 122)"

text \<open>
  \<^verbatim>\<open>re.sub(r'\s+([,.!?;:])', r'\1', text)\<close>: a maximal run of whitespace that is followed
  by one of the marks is dropped.
\<close>

function sub_space_before :: "pystr \<Rightarrow> pystr" where
  "sub_space_before [] = []"
| "sub_space_before (c # cs) =
     (let rest = dropWhile isspace (c # cs) in
      if isspace c \<and> rest \<noteq> [] \<and> is_punct2 (hd rest)
      then hd rest # sub_space_before (tl rest)
      else c # sub_space_before cs)"
  by pat_completeness auto
termination
proof (relation "measure length")
  fix c :: nat and cs rest
  assume "rest = dropWhile isspace (c # cs)"
    and "isspace c \<and> rest \<noteq> [] \<and> is_punct2 (hd rest)"
  then have "length rest \<le> length (c # cs)" and "rest \<noteq> []"
    using length_dropWhile_le [of isspace "c # cs"] by auto
  then show "(tl rest, c # cs) \<in> measure length"
    by (cases rest) auto
qed simp_all

declare sub_space_before.simps(2) [simp del]

text \<open>\<^verbatim>\<open>re.sub(r'([,.!?;:])([A-Za-z])', r'\1 \2', text)\<close>.\<close>

fun sub_space_after :: "pystr \<Rightarrow> pystr" where
  "sub_space_after (p # l # cs) =
     (if is_punct2 p \<and> is_ascii_letter l then p # 32 # l # sub_space_after cs
      else p # sub_space_after (l # cs))"
| "sub_space_after cs = cs"

text \<open>
  \<open>upper\<close> is \<^verbatim>\<open>str.upper\<close> on one character (the Unicode case mapping, which may
  give several characters); it is a parameter of the model.
\<close>

definition postprocess_text :: "(nat \<Rightarrow> pystr) \<Rightarrow> pystr \<Rightarrow> pystr" where
  "postprocess_text upper text =
     (if text = [] then text
      else
        let t1 = sub_space_before text;
            t2 = sub_space_after t1;
            t3 = (if t2 \<noteq> [] then upper (hd t2) @ tl t2 else t2)
        in strip t3)"

section \<open>The services and the request pipeline\<close>

type_synonym pair = "pystr \<times> pystr"

text \<open>The calls that leave the process: to the Redis server and to the model library.\<close>

datatype event =
    RedisGet pystr
  | RedisSetex pystr int pystr
  | FromPretrained pystr
  | Generate pair pystr

definition engine_event :: "event \<Rightarrow> bool" where
  "engine_event ev = (case ev of FromPretrained _ \<Rightarrow> True | Generate _ _ \<Rightarrow> True | _ \<Rightarrow> False)"

definition cache_event :: "event \<Rightarrow> bool" where
  "cache_event ev = (case ev of RedisGet _ \<Rightarrow> True | RedisSetex _ _ _ \<Rightarrow> True | _ \<Rightarrow> False)"

text \<open>
  The state of the process and of the Redis server behind it: the fields of the
  \<^verbatim>\<open>TranslationCache\<close> object (\<open>redis_client\<close> is \<open>False\<close> for \<^verbatim>\<open>None\<close>), the keys of the
  server, the pairs loaded in the \<^verbatim>\<open>MarianTranslator\<close>, the three counters, and the
  log of the external calls. Expiry is not part of the state: an entry that has
  expired has left \<open>redis_db\<close> before the call.
\<close>

record world =
  redis_client :: bool
  ttl :: int
  redis_db :: "pystr \<rightharpoonup> pystr"
  models :: "pair list"
  cache_hits_total :: nat
  cache_misses_total :: nat
  translations_total :: nat
  calls :: "event list"

text \<open>
  What the surroundings answer during one request: the value of \<^verbatim>\<open>MAX_LENGTH\<close> (a
  decimal integer when set), whether the Redis commands raise (timeout, lost
  connection), whether \<^verbatim>\<open>from_pretrained\<close> raises for a model name, and what the loaded
  model returns (or raises) for a text.
\<close>

record env =
  MAX_LENGTH :: "int option"
  redis_get_raises :: bool
  redis_setex_raises :: bool
  from_pretrained_raises :: "pystr \<Rightarrow> exn option"
  generate :: "pair \<Rightarrow> pystr \<Rightarrow> exn + pystr"

subsection \<open>\<^verbatim>\<open>cache/translation_cache.py\<close>\<close>

text \<open>\<^verbatim>\<open>_connect\<close>: any exception of the constructor or of \<^verbatim>\<open>ping\<close> leaves \<^verbatim>\<open>None\<close>.\<close>

definition connect :: "bool \<Rightarrow> world \<Rightarrow> world" where
  "connect ping_raises w = w\<lparr>redis_client := \<not> ping_raises\<rparr>"

text \<open>
  The client encodes keys and values with the strict UTF-8 codec before it sends a
  command, and the server rejects \<^verbatim>\<open>SETEX\<close> with a time to live that is not positive.
\<close>

definition cache_get :: "env \<Rightarrow> pystr \<Rightarrow> pystr \<Rightarrow> pystr \<Rightarrow> world \<Rightarrow> pystr option \<times> world" where
  "cache_get e text source_lang target_lang w =
     (if \<not> redis_client w then (None, w)
      else case generate_key text source_lang target_lang of
        Inl err \<Rightarrow> (None, w)
      | Inr key \<Rightarrow>
          let w1 = w\<lparr>calls := calls w @ [RedisGet key]\<rparr> in
          if redis_get_raises e \<or> \<not> encodable key then (None, w1)
          else case redis_db w key of
            None \<Rightarrow> (None, w1)
          | Some cached_value \<Rightarrow>
              if cached_value \<noteq> [] then (Some cached_value, w1) else (None, w1))"

definition cache_set ::
  "env \<Rightarrow> pystr \<Rightarrow> pystr \<Rightarrow> pystr \<Rightarrow> pystr \<Rightarrow> world \<Rightarrow> bool \<times> world" where
  "cache_set e text source_lang target_lang translation w =
     (if \<not> redis_client w then (False, w)
      else case generate_key text source_lang target_lang of
        Inl err \<Rightarrow> (False, w)
      | Inr key \<Rightarrow>
          let w1 = w\<lparr>calls := calls w @ [RedisSetex key (ttl w) translation]\<rparr> in
          if redis_setex_raises e \<or> \<not> encodable key \<or> \<not> encodable translation \<or> ttl w \<le> 0
          then (False, w1)
          else (True, w1\<lparr>redis_db := (redis_db w1)(key \<mapsto> translation)\<rparr>))"

subsection \<open>\<^verbatim>\<open>models/marian_translator.py\<close>\<close>

definition get_model_name :: "pystr \<Rightarrow> pystr \<Rightarrow> pystr option" where
  "get_model_name source_lang target_lang =
     map_of [((py ''en'', py ''hi''), py ''Helsinki-NLP/opus-mt-en-hi''),
             ((py ''hi'', py ''en''), py ''Helsinki-NLP/opus-mt-hi-en'')]
       (source_lang, target_lang)"

definition load_model :: "env \<Rightarrow> pystr \<Rightarrow> pystr \<Rightarrow> world \<Rightarrow> (exn + unit) \<times> world" where
  "load_model e source_lang target_lang w =
     (let pair = (source_lang, target_lang) in
      if pair \<in> set (models w) then (Inr (), w)
      else case get_model_name source_lang target_lang of
        None \<Rightarrow>
          (Inl (ValueError (py ''Unsupported language pair: '' @ source_lang @ py '' -> '' @
                  target_lang)), w)
      | Some model_name \<Rightarrow>
          let w1 = w\<lparr>calls := calls w @ [FromPretrained model_name]\<rparr> in
          case from_pretrained_raises e model_name of
            Some err \<Rightarrow> (Inl err, w1)
          | None \<Rightarrow> (Inr (), w1\<lparr>models := models w1 @ [pair]\<rparr>))"

definition translator_translate ::
  "env \<Rightarrow> pystr \<Rightarrow> pystr \<Rightarrow> pystr \<Rightarrow> world \<Rightarrow> (exn + pystr) \<times> world" where
  "translator_translate e text source_lang target_lang w =
     (let pair = (source_lang, target_lang);
          loaded = (if pair \<notin> set (models w) then load_model e source_lang target_lang w
                    else (Inr (), w))
      in case loaded of
        (Inl err, w1) \<Rightarrow> (Inl err, w1)
      | (Inr _, w1) \<Rightarrow>
          if pair \<notin> set (models w1) then (Inl KeyError, w1)
          else (generate e pair text, w1\<lparr>calls := calls w1 @ [Generate pair text]\<rparr>))"

subsection \<open>\<^verbatim>\<open>app.py\<close>\<close>

text \<open>\<^verbatim>\<open>int(os.getenv('MAX_LENGTH', '512'))\<close>.\<close>

definition getenv_MAX_LENGTH :: "env \<Rightarrow> int" where
  "getenv_MAX_LENGTH e = (case MAX_LENGTH e of None \<Rightarrow> 512 | Some n \<Rightarrow> n)"

definition SUPPORTED_PAIRS :: "pair list" where
  "SUPPORTED_PAIRS = [(py ''en'', py ''hi''), (py ''hi'', py ''en'')]"

text \<open>
  The JSON object of the request: a field is \<open>None\<close> when the key is missing or
  \<^verbatim>\<open>null\<close>, and a string otherwise.
\<close>

record request =
  req_text :: "pystr option"
  req_source_lang :: "pystr option"
  req_target_lang :: "pystr option"

text \<open>
  The JSON bodies of the responses. \<open>Translation\<close> carries \<^verbatim>\<open>translated_text\<close>,
  \<^verbatim>\<open>source_lang\<close>, \<^verbatim>\<open>target_lang\<close>, \<^verbatim>\<open>model\<close> (\<open>None\<close> when the key is absent, as in the
  answer from the cache) and \<^verbatim>\<open>cached\<close>; the latency is left out.
\<close>

datatype body =
    Invalid_JSON
  | Missing_Fields
  | Text_Too_Long int
  | Unsupported_Pair pystr pystr "pair list"
  | Translation pystr pystr pystr "pystr option option" bool
  | Translation_Failed exn

type_synonym response = "body \<times> nat"

text \<open>
  \<^verbatim>\<open>translate\<close>. \<open>data\<close> is what \<^verbatim>\<open>request.get_json()\<close> does: it raises, or returns a
  falsy value (\<open>None\<close>), or returns the object.
\<close>

definition translate ::
  "(nat \<Rightarrow> pystr) \<Rightarrow> env \<Rightarrow> exn + request option \<Rightarrow> world \<Rightarrow> response \<times> world" where
  "translate upper e data w =
     (case data of
        Inl err \<Rightarrow> ((Translation_Failed err, 500), w)
      | Inr None \<Rightarrow> ((Invalid_JSON, 400), w)
      | Inr (Some d) \<Rightarrow>
          (case (req_text d, req_source_lang d, req_target_lang d) of
             (Some text, Some source_lang, Some target_lang) \<Rightarrow>
               if text = [] \<or> source_lang = [] \<or> target_lang = []
               then ((Missing_Fields, 400), w)
               else
                 let max_length = getenv_MAX_LENGTH e in
                 if int (length text) > max_length then ((Text_Too_Long max_length, 400), w)
                 else if (source_lang, target_lang) \<notin> set SUPPORTED_PAIRS
                 then ((Unsupported_Pair source_lang target_lang SUPPORTED_PAIRS, 400), w)
                 else
                   (case cache_get e text source_lang target_lang w of
                      (Some cached_translation, w1) \<Rightarrow>
                        ((Translation cached_translation source_lang target_lang None True, 200),
                         w1\<lparr>cache_hits_total := cache_hits_total w1 + 1,
                            translations_total := translations_total w1 + 1\<rparr>)
                    | (None, w1) \<Rightarrow>
                        let w2 = w1\<lparr>cache_misses_total := cache_misses_total w1 + 1\<rparr>;
                            preprocessed_text = preprocess_text text
                        in
                        (case translator_translate e preprocessed_text source_lang target_lang w2 of
                           (Inl err, w3) \<Rightarrow> ((Translation_Failed err, 500), w3)
                         | (Inr translated_text, w3) \<Rightarrow>
                             let final_text = postprocess_text upper translated_text;
                                 w4 = snd (cache_set e text source_lang target_lang final_text w3);
                                 w5 = w4\<lparr>translations_total := translations_total w4 + 1\<rparr>
                             in
                             ((Translation final_text source_lang target_lang
                                 (Some (get_model_name source_lang target_lang)) False, 200),
                              w5)))
           | _ \<Rightarrow> ((Missing_Fields, 400), w)))"


section \<open>Notions used in the statements\<close>

text \<open>The request with the three fields present.\<close>

definition mk_request :: "pystr \<Rightarrow> pystr \<Rightarrow> pystr \<Rightarrow> exn + request option" where
  "mk_request text source_lang target_lang =
     Inr (Some \<lparr>req_text = Some text, req_source_lang = Some source_lang,
                req_target_lang = Some target_lang\<rparr>)"

text \<open>The request passes the four checks of \<^verbatim>\<open>translate\<close>.\<close>

definition valid_request :: "env \<Rightarrow> pystr \<Rightarrow> pystr \<Rightarrow> pystr \<Rightarrow> bool" where
  "valid_request e text source_lang target_lang \<longleftrightarrow>
     text \<noteq> [] \<and> source_lang \<noteq> [] \<and> target_lang \<noteq> [] \<and>
     int (length text) \<le> getenv_MAX_LENGTH e \<and>
     (source_lang, target_lang) \<in> set SUPPORTED_PAIRS"

text \<open>The external calls made between two states.\<close>

definition new_calls :: "world \<Rightarrow> world \<Rightarrow> event list" where
  "new_calls w w' = drop (length (calls w)) (calls w')"

definition is_setex :: "event \<Rightarrow> bool" where
  "is_setex ev = (case ev of RedisSetex _ _ _ \<Rightarrow> True | _ \<Rightarrow> False)"

definition is_cached :: "response \<Rightarrow> bool" where
  "is_cached r = (case fst r of Translation _ _ _ _ c \<Rightarrow> c | _ \<Rightarrow> False)"

subsection \<open>Example inputs\<close>

definition ascii_upper :: "nat \<Rightarrow> pystr" where
  "ascii_upper c = [if 97 \<le> c \<and> c \<le> 122 then c - 32 else c]"

definition fresh_world :: world where
  "fresh_world =
     \<lparr>redis_client = True, ttl = 86400, redis_db = Map.empty, models = [],
      cache_hits_total = 0, cache_misses_total = 0, translations_total = 0, calls = []\<rparr>"

text \<open>An environment where nothing raises and the model answers every text with \<open>out\<close>.\<close>

definition answering :: "pystr \<Rightarrow> env" where
  "answering out =
     \<lparr>MAX_LENGTH = None, redis_get_raises = False, redis_setex_raises = False,
      from_pretrained_raises = (\<lambda>name. None), generate = (\<lambda>pair text. Inr out)\<rparr>"

definition hello :: pystr where
  "hello = py ''Hello!!!  world''"

definition hello_key :: pystr where
  "hello_key = py ''trans:en:hi:'' @ take 16 (hexdigest (md5 (concat (map utf8_char hello))))"

definition en_hi_model :: pystr where
  "en_hi_model = py ''Helsinki-NLP/opus-mt-en-hi''"

text \<open>
  The state after one request for \<open>hello\<close> from English to Hindi was served from the
  model on \<open>fresh_world\<close>, and the final text \<open>v\<close> was stored.
\<close>

definition stored_world :: "pystr \<Rightarrow> world" where
  "stored_world v =
     \<lparr>redis_client = True, ttl = 86400, redis_db = [hello_key \<mapsto> v],
      models = [(py ''en'', py ''hi'')],
      cache_hits_total = 0, cache_misses_total = 1, translations_total = 1,
      calls = [RedisGet hello_key, FromPretrained en_hi_model,
               Generate (py ''en'', py ''hi'') (py ''Hello! world''),
               RedisSetex hello_key 86400 v]\<rparr>"

text \<open>Environments where the Redis commands raise, and where the model raises.\<close>

definition unreachable :: "pystr \<Rightarrow> env" where
  "unreachable out = (answering out)\<lparr>redis_get_raises := True, redis_setex_raises := True\<rparr>"

definition failing_engine :: env where
  "failing_engine =
     (answering [])\<lparr>generate := (\<lambda>pair text. Inl (EngineError (py ''CUDA out of memory'')))\<rparr>"


section \<open>Normalisation as the specification words it\<close>

text \<open>
  The specification describes \<^verbatim>\<open>Normalize\<close> by three steps; they are written down here
  independently of \<open>preprocess_text\<close>, to be compared with it. First, every maximal
  run of whitespace becomes one space.
\<close>

function collapse_whitespace :: "pystr \<Rightarrow> pystr" where
  "collapse_whitespace [] = []"
| "collapse_whitespace (c # cs) =
     (if isspace c then 32 # collapse_whitespace (dropWhile isspace cs)
      else c # collapse_whitespace cs)"
  by pat_completeness auto
termination
  by (relation "measure length") (auto simp: length_dropWhile_le less_Suc_eq_le)

text \<open>
  Second, every maximal run of two or more characters of \<^verbatim>\<open>!?.\<close> becomes a single one:
  the last of the run (for a run of one repeated character, that character).
\<close>

function collapse_punct_runs :: "pystr \<Rightarrow> pystr" where
  "collapse_punct_runs [] = []"
| "collapse_punct_runs (c # cs) =
     (if is_punct c then
        (let run = c # takeWhile is_punct cs
         in (if 2 \<le> length run then [last run] else run) @
            collapse_punct_runs (dropWhile is_punct cs))
      else c # collapse_punct_runs cs)"
  by pat_completeness auto
termination
  by (relation "measure length") (auto simp: length_dropWhile_le less_Suc_eq_le)

declare collapse_punct_runs.simps(2) [simp del]

text \<open>Third, leading and trailing whitespace is removed.\<close>

definition normalize_spec :: "pystr \<Rightarrow> pystr" where
  "normalize_spec text = strip (collapse_punct_runs (collapse_whitespace text))"


section \<open>Notions for the segmentation\<close>

text \<open>
  The sentences of the loop of \<^verbatim>\<open>chunk_text\<close>: each element of the split at an even
  index, followed by its delimiter.
\<close>

fun full_sentences :: "pystr list \<Rightarrow> pystr list" where
  "full_sentences [] = []"
| "full_sentences [sentence] = [sentence]"
| "full_sentences (sentence # punctuation # rest) = (sentence @ punctuation) # full_sentences rest"

text \<open>
  \<open>weave gaps chunks\<close> is the text that has the chunks in their order, with the gaps
  before, between and behind them.
\<close>

fun weave :: "pystr list \<Rightarrow> pystr list \<Rightarrow> pystr" where
  "weave (g # gs) (c # cs) = g @ c @ weave gs cs"
| "weave gs [] = concat gs"
| "weave [] cs = concat cs"

text \<open>The chunk is one sentence of the text that is longer than the limit, stripped.\<close>

definition oversized_sentence :: "pystr \<Rightarrow> int \<Rightarrow> pystr \<Rightarrow> bool" where
  "oversized_sentence text max_length c =
     list_ex (\<lambda>f. max_length < int (length f) \<and> c = strip f) (full_sentences (re_split [] text))"

text \<open>
  A segment of the text is within the limit, or it is one of the sentences \<open>F\<close> and
  longer than the limit.
\<close>

definition seg_ok :: "int \<Rightarrow> pystr list \<Rightarrow> pystr \<Rightarrow> bool" where
  "seg_ok m F s \<longleftrightarrow> int (length s) \<le> m \<or> (s \<in> set F \<and> m < int (length s))"

definition example_text :: pystr where
  "example_text = py ''Hi there. How are you?  I am fine!! ok. ''"

lemma split_ws_Nil [simp]: "split_ws [] = []"
  by (subst split_ws.simps) simp

lemma split_ws_space [simp]: "isspace c \<Longrightarrow> split_ws (c # cs) = split_ws cs"
  by (subst split_ws.simps, subst (2) split_ws.simps) simp

lemma split_ws_word [simp]:
  "\<not> isspace c \<Longrightarrow>
     split_ws (c # cs) =
       (c # takeWhile (Not \<circ> isspace) cs) # split_ws (dropWhile (Not \<circ> isspace) cs)"
  by (subst split_ws.simps) simp

lemma sub_punct_Cons:
  "sub_punct (c # cs) =
     (if is_punct c \<and> cs \<noteq> [] \<and> is_punct (hd cs) then sub_punct cs else c # sub_punct cs)"
proof (cases "is_punct c \<and> cs \<noteq> [] \<and> is_punct (hd cs)")
  case False
  then have "length (takeWhile is_punct (c # cs)) < 2"
    by (cases cs) auto
  then show ?thesis
    using False by (simp add: sub_punct.simps(2) Let_def)
next
  case True
  then obtain d ds where cs: "cs = d # ds" and c: "is_punct c" and d: "is_punct d"
    by (cases cs) auto
  have l: "sub_punct (c # cs) = last (d # takeWhile is_punct ds) # sub_punct (dropWhile is_punct ds)"
    using c d by (simp add: sub_punct.simps(2) cs Let_def)
  have r: "sub_punct (d # ds) = last (d # takeWhile is_punct ds) # sub_punct (dropWhile is_punct ds)"
  proof (cases "ds \<noteq> [] \<and> is_punct (hd ds)")
    case True
    then show ?thesis
      using d by (cases ds) (auto simp: sub_punct.simps(2) Let_def)
  next
    case False
    then have "takeWhile is_punct ds = []" "dropWhile is_punct ds = ds"
      by (cases ds; simp)+
    then show ?thesis
      using d by (simp add: sub_punct.simps(2) Let_def)
  qed
  show ?thesis
    using True l r cs by simp
qed


lemma wordlist_split_ws: "wordlist (split_ws s)"
proof (induction "length s" arbitrary: s rule: less_induct)
  case less
  show ?case
  proof (cases s)
    case Nil
    then show ?thesis by (simp add: wordlist_def)
  next
    case (Cons c cs)
    show ?thesis
    proof (cases "isspace c")
      case True
      then show ?thesis
        using less [of cs] Cons by simp
    next
      case False
      have "length (dropWhile (Not \<circ> isspace) cs) < length s"
        using length_dropWhile_le [of "Not \<circ> isspace" cs] Cons by simp
      then have "wordlist (split_ws (dropWhile (Not \<circ> isspace) cs))"
        by (rule less)
      then show ?thesis
        using False Cons by (auto simp: wordlist_def dest: set_takeWhileD)
    qed
  qed
qed

lemma split_ws_word_append:
  assumes "w \<noteq> []" and "\<forall>c\<in>set w. \<not> isspace c" and "r = [] \<or> isspace (hd r)"
  shows "split_ws (w @ r) = w # split_ws r"
proof -
  obtain c w' where w: "w = c # w'"
    using assms(1) by (cases w) auto
  have t: "takeWhile (Not \<circ> isspace) (w' @ r) = w'"
    using assms(2,3) by (cases r) (auto simp: w takeWhile_append)
  have d: "dropWhile (Not \<circ> isspace) (w' @ r) = r"
    using assms(2,3) by (cases r) (auto simp: w dropWhile_append)
  show ?thesis
    using assms(2) by (simp add: w t d)
qed

lemma isspace_space: "isspace 32"
  by (simp add: isspace_def)

lemma py_space: "py '' '' = [32]"
  by (simp add: py_def)

lemma split_ws_join:
  "wordlist ws \<Longrightarrow> split_ws (join [32] ws) = ws"
proof (induction "[32::nat]" ws rule: join.induct)
  case 1
  then show ?case by simp
next
  case (2 x)
  then show ?case
    using split_ws_word_append [of x "[]"] by (simp add: wordlist_def)
next
  case (3 x y ys)
  have "split_ws (x @ 32 # join [32] (y # ys)) = x # split_ws (32 # join [32] (y # ys))"
    using 3(2) by (intro split_ws_word_append) (auto simp: wordlist_def isspace_space)
  then show ?case
    using 3 by (simp add: isspace_space wordlist_def)
qed

lemma sub_punct_append_nonpunct:
  "\<not> is_punct c \<Longrightarrow> sub_punct (a @ c # b) = sub_punct a @ c # sub_punct b"
proof (induction a)
  case Nil
  then show ?case by (simp add: sub_punct_Cons)
next
  case (Cons x a)
  then show ?case
    by (cases a) (auto simp: sub_punct_Cons)
qed

lemma not_punct_space: "\<not> is_punct 32"
  by (simp add: is_punct_def py_def)

lemma sub_punct_join:
  "sub_punct (join [32] ws) = join [32] (map sub_punct ws)"
  by (induction "[32::nat]" ws rule: join.induct)
     (simp_all add: sub_punct_append_nonpunct not_punct_space)

lemma set_sub_punct: "set (sub_punct w) \<subseteq> set w"
  by (induction w) (auto simp: sub_punct_Cons)

lemma sub_punct_eq_Nil [simp]: "sub_punct w = [] \<longleftrightarrow> w = []"
  by (induction w) (auto simp: sub_punct_Cons)

lemma wordlist_map_sub_punct: "wordlist ws \<Longrightarrow> wordlist (map sub_punct ws)"
  using set_sub_punct by (auto simp: wordlist_def)

lemma hd_sub_punct: "w \<noteq> [] \<Longrightarrow> is_punct (hd (sub_punct w)) = is_punct (hd w)"
  by (induction w) (auto simp: sub_punct_Cons)

lemma sub_punct_idem: "sub_punct (sub_punct w) = sub_punct w"
proof (induction w)
  case Nil
  then show ?case by simp
next
  case (Cons c w)
  then show ?case
    using hd_sub_punct [of w] by (auto simp: sub_punct_Cons)
qed

lemma dropWhile_hd_id: "xs \<noteq> [] \<Longrightarrow> \<not> P (hd xs) \<Longrightarrow> dropWhile P xs = xs"
  by (cases xs) auto

lemma strip_id:
  assumes "s = [] \<or> (\<not> isspace (hd s) \<and> \<not> isspace (last s))"
  shows "strip s = s"
proof (cases "s = []")
  case True
  then show ?thesis by (simp add: strip_def)
next
  case False
  have "dropWhile isspace s = s"
    using assms False by (intro dropWhile_hd_id) auto
  moreover have "dropWhile isspace (rev s) = rev s"
    using assms False by (intro dropWhile_hd_id) (auto simp: hd_rev)
  ultimately show ?thesis
    by (simp add: strip_def)
qed

lemma join_ends:
  assumes "wordlist ws" and "ws \<noteq> []"
  shows "join [32] ws \<noteq> [] \<and> \<not> isspace (hd (join [32] ws)) \<and> \<not> isspace (last (join [32] ws))"
  using assms
proof (induction "[32::nat]" ws rule: join.induct)
  case 1
  then show ?case by simp
next
  case (2 x)
  then have "x \<noteq> []" and "\<forall>c\<in>set x. \<not> isspace c"
    by (simp_all add: wordlist_def)
  then show ?case
    using hd_in_set [of x] last_in_set [of x] by auto
next
  case (3 x y ys)
  from 3(2) have x: "x \<noteq> []" "\<forall>c\<in>set x. \<not> isspace c" and w: "wordlist (y # ys)"
    by (simp_all add: wordlist_def)
  have ih: "join [32] (y # ys) \<noteq> [] \<and> \<not> isspace (last (join [32] (y # ys)))"
    using 3(1) [OF w] by simp
  have "hd (join [32] (x # y # ys)) = hd x"
    using x(1) by simp
  moreover have "last (join [32] (x # y # ys)) = last (join [32] (y # ys))"
    using ih by simp
  moreover have "\<not> isspace (hd x)"
    using x by (meson hd_in_set)
  ultimately show ?case
    using ih x(1) by simp
qed

lemma strip_join: "wordlist ws \<Longrightarrow> strip (join [32] ws) = join [32] ws"
proof (cases "ws = []")
  case True
  then show ?thesis by (simp add: strip_def)
next
  case False
  assume "wordlist ws"
  then show ?thesis
    using False join_ends [of ws] by (intro strip_id) simp
qed

lemma preprocess_text_words:
  "preprocess_text x = join [32] (map sub_punct (split_ws x))"
proof (cases "x = []")
  case True
  then show ?thesis by (simp add: preprocess_text_def)
next
  case False
  then show ?thesis
    by (simp add: preprocess_text_def py_space sub_punct_join strip_join
        wordlist_map_sub_punct wordlist_split_ws)
qed

text \<open>
  Claim C4. Normalising is idempotent: for every string \<open>x\<close>, applying
  \<open>preprocess_text\<close> to \<open>preprocess_text x\<close> gives \<open>preprocess_text x\<close> again.
\<close>

theorem preprocess_text_idempotent:
  "preprocess_text (preprocess_text x) = preprocess_text x"
proof -
  let ?ws = "map sub_punct (split_ws x)"
  have w: "wordlist ?ws"
    by (simp add: wordlist_map_sub_punct wordlist_split_ws)
  have "preprocess_text (join [32] ?ws) = join [32] (map sub_punct (split_ws (join [32] ?ws)))"
    by (rule preprocess_text_words)
  also have "\<dots> = join [32] (map sub_punct ?ws)"
    using w by (simp add: split_ws_join)
  also have "\<dots> = join [32] ?ws"
    by (simp add: sub_punct_idem comp_def)
  finally show ?thesis
    by (simp add: preprocess_text_words)
qed

section \<open>The cache key\<close>

lemma encodable_Nil [simp]: "encodable []"
  by (simp add: encodable_def)

lemma encodable_append [simp]: "encodable (a @ b) \<longleftrightarrow> encodable a \<and> encodable b"
  by (simp add: encodable_def)

lemma hex_digit_ascii: "n < 16 \<Longrightarrow> py ''0123456789abcdef'' ! n \<in> set (py ''0123456789abcdef'')"
  by (rule nth_mem) (simp add: py_def)

lemma hex_byte_digits: "set (hex_byte b) \<subseteq> set (py ''0123456789abcdef'')"
  using hex_digit_ascii [of "b div 16 mod 16"] hex_digit_ascii [of "b mod 16"]
  by (simp add: hex_byte_def)

lemma hexdigest_digits: "set (hexdigest bs) \<subseteq> set (py ''0123456789abcdef'')"
  using hex_byte_digits by (auto simp: hexdigest_def)

lemma length_hexdigest: "length (hexdigest bs) = 2 * length bs"
  by (induction bs) (simp_all add: hexdigest_def hex_byte_def)

lemma length_md5: "length (md5 bs) = 16"
  by (simp add: md5_def le_bytes_def split: prod.splits)

lemma hexdigest_encodable: "encodable (hexdigest bs)"
proof -
  have "\<forall>c\<in>set (py ''0123456789abcdef''). c < 0xD800"
    by (simp add: py_def)
  then show ?thesis
    using hexdigest_digits [of bs] by (auto simp: encodable_def list_all_iff)
qed

lemma encodable_take: "encodable s \<Longrightarrow> encodable (take n s)"
  unfolding encodable_def list_all_iff by (auto dest: in_set_takeD)

lemma generate_key_encodable:
  assumes "generate_key text source_lang target_lang = Inr key"
    and "encodable source_lang" and "encodable target_lang"
  shows "encodable key"
proof -
  have "encodable (py ''trans:'')" and "encodable (py '':'')"
    by (simp_all add: encodable_def py_def)
  then show ?thesis
    using assms
    by (auto simp: generate_key_def Let_def encodable_take hexdigest_encodable
        split: sum.splits)
qed

lemma supported_encodable:
  "(source_lang, target_lang) \<in> set SUPPORTED_PAIRS \<Longrightarrow>
     encodable source_lang \<and> encodable target_lang"
  by (auto simp: SUPPORTED_PAIRS_def encodable_def py_def)

lemma hello_generate_key: "generate_key hello (py ''en'') (py ''hi'') = Inr hello_key"
  by (simp add: generate_key_def utf8_encode_def encodable_def hello_def hello_key_def py_def)

lemma hello_key_encodable: "encodable hello_key"
  using generate_key_encodable [OF hello_generate_key]
  by (simp add: encodable_def py_def)

text \<open>
  Claim C3, amended. For every text that the strict UTF-8 codec encodes (no surrogate
  code point) and every source and target, \<open>generate_key\<close> returns the string
  \<^verbatim>\<open>"trans:" + source + ":" + target + ":" + h\<close>, where \<open>h\<close> is the first 16 characters of
  the hexadecimal MD5 digest of the UTF-8 bytes of the text: 16 characters, each a
  lower-case hexadecimal digit. The key is a function of the three arguments alone.
\<close>

theorem generate_key_form:
  assumes "utf8_encode text = Inr bs"
  shows "generate_key text source_lang target_lang =
           Inr (py ''trans:'' @ source_lang @ py '':'' @ target_lang @ py '':'' @
                take 16 (hexdigest (md5 bs))) \<and>
         length (take 16 (hexdigest (md5 bs))) = 16 \<and>
         set (take 16 (hexdigest (md5 bs))) \<subseteq> set (py ''0123456789abcdef'')"
proof -
  have "set (take 16 (hexdigest (md5 bs))) \<subseteq> set (hexdigest (md5 bs))"
    by (rule set_take_subset)
  then show ?thesis
    using assms hexdigest_digits [of "md5 bs"]
    by (simp add: generate_key_def length_hexdigest length_md5)
qed

theorem generate_key_form_witness:
  "utf8_encode hello = Inr [72, 101, 108, 108, 111, 33, 33, 33, 32, 32, 119, 111, 114, 108, 100] \<and>
   generate_key hello (py ''en'') (py ''hi'') =
     Inr (py ''trans:en:hi:'' @
          take 16 (hexdigest (md5 [72, 101, 108, 108, 111, 33, 33, 33, 32, 32, 119, 111, 114, 108, 100]))) \<and>
   length (take 16 (hexdigest
     (md5 [72, 101, 108, 108, 111, 33, 33, 33, 32, 32, 119, 111, 114, 108, 100]))) = 16"
proof -
  have u: "utf8_encode hello =
      Inr [72, 101, 108, 108, 111, 33, 33, 33, 32, 32, 119, 111, 114, 108, 100]"
    by (simp add: utf8_encode_def encodable_def utf8_char_def hello_def py_def)
  show ?thesis
    using u generate_key_form [OF u, of "py ''en''" "py ''hi''"]
    by (simp add: py_def)
qed

theorem generate_key_surrogate_counterexample:
  "generate_key [0xD800] (py ''en'') (py ''hi'') = Inl UnicodeEncodeError"
  by (simp add: generate_key_def utf8_encode_def encodable_def)


section \<open>The cache and the translator\<close>

lemma cache_get_frame:
  "redis_db (snd (cache_get e text s t w)) = redis_db w"
  "models (snd (cache_get e text s t w)) = models w"
  "redis_client (snd (cache_get e text s t w)) = redis_client w"
  "ttl (snd (cache_get e text s t w)) = ttl w"
  by (simp_all add: cache_get_def Let_def split: sum.splits option.splits)

lemma cache_get_calls:
  "calls (snd (cache_get e text s t w)) =
     calls w @ (if redis_client w then
                  (case generate_key text s t of Inl err \<Rightarrow> [] | Inr key \<Rightarrow> [RedisGet key])
                else [])"
  by (simp add: cache_get_def Let_def split: sum.splits option.splits)

lemma cache_get_Some:
  "fst (cache_get e text s t w) = Some v \<longleftrightarrow>
     redis_client w \<and> \<not> redis_get_raises e \<and> v \<noteq> [] \<and>
     (\<exists>key. generate_key text s t = Inr key \<and> encodable key \<and> redis_db w key = Some v)"
  by (auto simp: cache_get_def Let_def split: sum.splits option.splits)

lemma cache_set_frame:
  "models (snd (cache_set e text s t v w)) = models w"
  "redis_client (snd (cache_set e text s t v w)) = redis_client w"
  "ttl (snd (cache_set e text s t v w)) = ttl w"
  by (simp_all add: cache_set_def Let_def split: sum.splits)

lemma cache_set_False:
  "\<not> fst (cache_set e text s t v w) \<Longrightarrow> redis_db (snd (cache_set e text s t v w)) = redis_db w"
  by (auto simp: cache_set_def Let_def split: sum.splits if_splits)

lemma cache_set_True:
  "fst (cache_set e text s t v w) \<longleftrightarrow>
     redis_client w \<and> \<not> redis_setex_raises e \<and> encodable v \<and> 0 < ttl w \<and>
     (\<exists>key. generate_key text s t = Inr key \<and> encodable key)"
  by (auto simp: cache_set_def Let_def split: sum.splits)

lemma cache_set_stored:
  "fst (cache_set e text s t v w) \<Longrightarrow> generate_key text s t = Inr key \<Longrightarrow>
     redis_db (snd (cache_set e text s t v w)) = (redis_db w)(key \<mapsto> v)"
  by (simp add: cache_set_def Let_def split: sum.splits if_splits)

lemma load_model_frame:
  "redis_db (snd (load_model e s t w)) = redis_db w"
  "redis_client (snd (load_model e s t w)) = redis_client w"
  "ttl (snd (load_model e s t w)) = ttl w"
  by (simp_all add: load_model_def Let_def split: option.splits)

lemma translator_translate_frame:
  "redis_db (snd (translator_translate e text s t w)) = redis_db w"
  "redis_client (snd (translator_translate e text s t w)) = redis_client w"
  "ttl (snd (translator_translate e text s t w)) = ttl w"
  using load_model_frame [of e s t w]
  by (auto simp: translator_translate_def Let_def split: prod.splits sum.splits)

lemma load_model_new_calls:
  "\<exists>evs. calls (snd (load_model e s t w)) = calls w @ evs \<and> list_all engine_event evs"
  by (simp add: load_model_def Let_def engine_event_def split: option.splits)

lemma translator_translate_new_calls:
  "\<exists>evs. calls (snd (translator_translate e text s t w)) = calls w @ evs \<and>
         list_all engine_event evs"
proof -
  obtain evs where l: "calls (snd (load_model e s t w)) = calls w @ evs"
      "list_all engine_event evs"
    using load_model_new_calls by blast
  show ?thesis
  proof (cases "(s, t) \<in> set (models w)")
    case True
    then show ?thesis
      by (simp add: translator_translate_def Let_def engine_event_def)
  next
    case False
    then show ?thesis
      using l
      by (cases "load_model e s t w")
         (auto simp: translator_translate_def Let_def engine_event_def split: sum.splits)
  qed
qed

lemma load_model_cong:
  "models w' = models w \<Longrightarrow>
     fst (load_model e s t w') = fst (load_model e s t w) \<and>
     models (snd (load_model e s t w')) = models (snd (load_model e s t w))"
  by (simp add: load_model_def Let_def split: option.splits)

lemma translator_translate_cong:
  assumes "models w' = models w"
  shows "fst (translator_translate e text s t w') = fst (translator_translate e text s t w)"
proof -
  have "fst (load_model e s t w') = fst (load_model e s t w)"
    and "models (snd (load_model e s t w')) = models (snd (load_model e s t w))"
    using load_model_cong [OF assms] by simp_all
  then show ?thesis
    using assms
    by (cases "load_model e s t w'"; cases "load_model e s t w")
       (auto simp: translator_translate_def Let_def split: sum.splits)
qed

text \<open>A supported pair is loaded or a load is attempted, so the translator always calls out.\<close>

lemma translator_translate_calls_out:
  assumes "(s, t) \<in> set SUPPORTED_PAIRS"
  shows "\<exists>ev evs. calls (snd (translator_translate e text s t w)) = calls w @ ev # evs \<and>
           engine_event ev"
proof (cases "(s, t) \<in> set (models w)")
  case True
  then show ?thesis
    by (simp add: translator_translate_def Let_def engine_event_def)
next
  case False
  obtain name where n: "get_model_name s t = Some name"
    using assms by (auto simp: SUPPORTED_PAIRS_def get_model_name_def py_def)
  show ?thesis
    using False n
    by (auto simp: translator_translate_def load_model_def Let_def engine_event_def
        split: option.splits)
qed

section \<open>The pipeline\<close>

lemma translate_valid:
  assumes "valid_request e text s t"
  shows "translate upper e (mk_request text s t) w =
     (case cache_get e text s t w of
        (Some cached_translation, w1) \<Rightarrow>
          ((Translation cached_translation s t None True, 200),
           w1\<lparr>cache_hits_total := cache_hits_total w1 + 1,
              translations_total := translations_total w1 + 1\<rparr>)
      | (None, w1) \<Rightarrow>
          (case translator_translate e (preprocess_text text) s t
                  (w1\<lparr>cache_misses_total := cache_misses_total w1 + 1\<rparr>) of
             (Inl err, w3) \<Rightarrow> ((Translation_Failed err, 500), w3)
           | (Inr translated_text, w3) \<Rightarrow>
               ((Translation (postprocess_text upper translated_text) s t
                   (Some (get_model_name s t)) False, 200),
                (snd (cache_set e text s t (postprocess_text upper translated_text) w3))
                  \<lparr>translations_total :=
                     translations_total
                       (snd (cache_set e text s t (postprocess_text upper translated_text) w3)) + 1\<rparr>)))"
  using assms
  by (auto simp: translate_def mk_request_def valid_request_def Let_def
      split: prod.splits option.splits sum.splits)


subsection \<open>The example request\<close>

lemma preprocess_hello: "preprocess_text hello = py ''Hello! world''"
  by (simp add: preprocess_text_def hello_def py_def strip_def isspace_def is_punct_def
      sub_punct_Cons)

lemma getenv_answering [simp]: "getenv_MAX_LENGTH (answering out) = 512"
  by (simp add: getenv_MAX_LENGTH_def answering_def)

lemma hello_valid: "valid_request (answering out) hello (py ''en'') (py ''hi'')"
  by (simp add: valid_request_def hello_def SUPPORTED_PAIRS_def py_def)

lemma en_hi_name: "get_model_name (py ''en'') (py ''hi'') = Some en_hi_model"
  by (simp add: get_model_name_def en_hi_model_def)

lemma first_call:
  assumes "encodable (postprocess_text ascii_upper out)"
  shows "translate ascii_upper (answering out) (mk_request hello (py ''en'') (py ''hi'')) fresh_world =
     ((Translation (postprocess_text ascii_upper out) (py ''en'') (py ''hi'')
         (Some (Some en_hi_model)) False, 200),
      stored_world (postprocess_text ascii_upper out))"
  using assms
  by (subst translate_valid [OF hello_valid])
     (simp add: cache_get_def hello_generate_key hello_key_encodable fresh_world_def
        answering_def preprocess_hello translator_translate_def load_model_def en_hi_name
        cache_set_def stored_world_def Let_def)

lemma postprocess_namaste:
  "postprocess_text ascii_upper (py ''namaste ,duniya'') = py ''Namaste, duniya''"
  by (simp add: postprocess_text_def py_def sub_space_before.simps isspace_def is_punct2_def
      is_ascii_letter_def ascii_upper_def strip_def)


section \<open>The claims about the pipeline\<close>

text \<open>
  Claim C5. Validation precedes all side effects: a request whose text is empty, or
  longer than the configured maximum (512 when \<^verbatim>\<open>MAX_LENGTH\<close> is not set), or whose pair
  is not in \<open>SUPPORTED_PAIRS\<close>, is answered with the status 400 and the error of the
  first check it fails, and the state is returned as it was: no call to the cache,
  none to the model, the same cache and the same loaded models.
\<close>

theorem validation_precedes_effects:
  assumes "text = [] \<or> int (length text) > getenv_MAX_LENGTH e \<or>
           (source_lang, target_lang) \<notin> set SUPPORTED_PAIRS"
  shows "translate upper e (mk_request text source_lang target_lang) w =
           ((if text = [] \<or> source_lang = [] \<or> target_lang = [] then Missing_Fields
             else if int (length text) > getenv_MAX_LENGTH e
             then Text_Too_Long (getenv_MAX_LENGTH e)
             else Unsupported_Pair source_lang target_lang SUPPORTED_PAIRS, 400), w)"
  using assms by (auto simp: translate_def mk_request_def Let_def)

theorem validation_precedes_effects_witness:
  "translate ascii_upper (answering []) (mk_request [] (py ''en'') (py ''hi'')) fresh_world =
     ((Missing_Fields, 400), fresh_world) \<and>
   translate ascii_upper (answering []) (mk_request (replicate 600 97) (py ''en'') (py ''hi''))
       fresh_world =
     ((Text_Too_Long 512, 400), fresh_world) \<and>
   translate ascii_upper (answering []) (mk_request hello (py ''en'') (py ''fr'')) fresh_world =
     ((Unsupported_Pair (py ''en'') (py ''fr'') SUPPORTED_PAIRS, 400), fresh_world)"
proof -
  have "(py ''en'', py ''fr'') \<notin> set SUPPORTED_PAIRS"
    by (simp add: SUPPORTED_PAIRS_def py_def)
  then show ?thesis
    using validation_precedes_effects
            [of "[]" "answering []" "py ''en''" "py ''hi''" ascii_upper fresh_world]
          validation_precedes_effects
            [of "replicate 600 97" "answering []" "py ''en''" "py ''hi''" ascii_upper fresh_world]
          validation_precedes_effects
            [of hello "answering []" "py ''en''" "py ''fr''" ascii_upper fresh_world]
    by (simp add: hello_def py_def)
qed

lemma engine_event_not_setex: "engine_event ev \<Longrightarrow> \<not> is_setex ev"
  by (cases ev) (simp_all add: engine_event_def is_setex_def)

text \<open>
  Claim C6. Atomicity on engine failure: when a validated request misses the cache and
  the translator raises (the load of the model or the call of the model), the answer
  is the error with the status 500 and that exception, the cache holds what it held
  before, and no \<^verbatim>\<open>SETEX\<close> was sent.
\<close>

theorem engine_failure_not_cached:
  assumes valid: "valid_request e text s t"
    and miss: "fst (cache_get e text s t w) = None"
    and fails: "fst (translator_translate e (preprocess_text text) s t w) = Inl err"
  shows "fst (translate upper e (mk_request text s t) w) = (Translation_Failed err, 500) \<and>
         redis_db (snd (translate upper e (mk_request text s t) w)) = redis_db w \<and>
         list_all (\<lambda>ev. \<not> is_setex ev)
           (new_calls w (snd (translate upper e (mk_request text s t) w)))"
proof -
  obtain w1 where g: "cache_get e text s t w = (None, w1)"
    using miss by (cases "cache_get e text s t w") auto
  have w1: "redis_db w1 = redis_db w" "models w1 = models w"
    using cache_get_frame [of e "text" s t w] g by simp_all
  obtain gets where c1: "calls w1 = calls w @ gets" "list_all (\<lambda>ev. \<not> is_setex ev) gets"
    using cache_get_calls [of e "text" s t w] g
    by (auto simp: is_setex_def split: sum.splits if_splits)
  let ?w2 = "w1\<lparr>cache_misses_total := cache_misses_total w1 + 1\<rparr>"
  have "fst (translator_translate e (preprocess_text text) s t ?w2) = Inl err"
    using translator_translate_cong [of ?w2 w e "preprocess_text text" s t] w1 fails by simp
  then obtain w3 where tr: "translator_translate e (preprocess_text text) s t ?w2 = (Inl err, w3)"
    by (cases "translator_translate e (preprocess_text text) s t ?w2") auto
  have res: "translate upper e (mk_request text s t) w = ((Translation_Failed err, 500), w3)"
    using tr by (simp add: translate_valid [OF valid] g)
  have db: "redis_db w3 = redis_db w"
    using translator_translate_frame [of e "preprocess_text text" s t ?w2] tr w1 by simp
  obtain evs where c3: "calls w3 = calls ?w2 @ evs" "list_all engine_event evs"
    using translator_translate_new_calls [of e "preprocess_text text" s t ?w2] tr by auto
  have "list_all (\<lambda>ev. \<not> is_setex ev) evs"
    using c3(2) engine_event_not_setex by (auto simp: list_all_iff)
  then have "list_all (\<lambda>ev. \<not> is_setex ev) (new_calls w w3)"
    using c1 c3(1) by (simp add: new_calls_def)
  then show ?thesis
    using res db by simp
qed

lemma failing_valid: "valid_request failing_engine hello (py ''en'') (py ''hi'')"
  using hello_valid [of "[]"]
  by (simp add: valid_request_def failing_engine_def getenv_MAX_LENGTH_def answering_def)

theorem engine_failure_not_cached_witness:
  "fst (translate ascii_upper failing_engine (mk_request hello (py ''en'') (py ''hi''))
          fresh_world) =
     (Translation_Failed (EngineError (py ''CUDA out of memory'')), 500) \<and>
   redis_db (snd (translate ascii_upper failing_engine (mk_request hello (py ''en'') (py ''hi''))
          fresh_world)) = Map.empty"
proof -
  have miss: "fst (cache_get failing_engine hello (py ''en'') (py ''hi'') fresh_world) = None"
    by (simp add: cache_get_def hello_generate_key fresh_world_def Let_def)
  have fails: "fst (translator_translate failing_engine (preprocess_text hello) (py ''en'')
                 (py ''hi'') fresh_world) = Inl (EngineError (py ''CUDA out of memory''))"
    by (simp add: translator_translate_def load_model_def en_hi_name fresh_world_def
        failing_engine_def answering_def Let_def)
  show ?thesis
    using engine_failure_not_cached [OF failing_valid miss fails, of ascii_upper]
    by (simp add: fresh_world_def)
qed


lemma cache_get_down:
  "\<not> redis_client w \<or> redis_get_raises e \<Longrightarrow> fst (cache_get e text s t w) = None"
  by (auto simp: cache_get_def Let_def split: sum.splits option.splits)

lemma cache_set_down:
  "\<not> redis_client w \<or> redis_setex_raises e \<Longrightarrow> \<not> fst (cache_set e text s t v w)"
  by (auto simp: cache_set_def Let_def split: sum.splits)

lemma translate_miss:
  assumes valid: "valid_request e text s t"
    and miss: "fst (cache_get e text s t w) = None"
  obtains w2 where "models w2 = models w" and "redis_db w2 = redis_db w"
    and "redis_client w2 = redis_client w" and "ttl w2 = ttl w"
    and "calls w2 = calls (snd (cache_get e text s t w))"
    and "translate upper e (mk_request text s t) w =
      (case translator_translate e (preprocess_text text) s t w2 of
         (Inl err, w3) \<Rightarrow> ((Translation_Failed err, 500), w3)
       | (Inr translated_text, w3) \<Rightarrow>
           ((Translation (postprocess_text upper translated_text) s t
               (Some (get_model_name s t)) False, 200),
            (snd (cache_set e text s t (postprocess_text upper translated_text) w3))
              \<lparr>translations_total :=
                 translations_total
                   (snd (cache_set e text s t (postprocess_text upper translated_text) w3)) + 1\<rparr>))"
proof -
  obtain w1 where g: "cache_get e text s t w = (None, w1)"
    using miss by (cases "cache_get e text s t w") auto
  let ?w2 = "w1\<lparr>cache_misses_total := cache_misses_total w1 + 1\<rparr>"
  have "models ?w2 = models w" "redis_db ?w2 = redis_db w" "redis_client ?w2 = redis_client w"
    "ttl ?w2 = ttl w" "calls ?w2 = calls (snd (cache_get e text s t w))"
    using cache_get_frame [of e "text" s t w] g by simp_all
  moreover have "translate upper e (mk_request text s t) w =
      (case translator_translate e (preprocess_text text) s t ?w2 of
         (Inl err, w3) \<Rightarrow> ((Translation_Failed err, 500), w3)
       | (Inr translated_text, w3) \<Rightarrow>
           ((Translation (postprocess_text upper translated_text) s t
               (Some (get_model_name s t)) False, 200),
            (snd (cache_set e text s t (postprocess_text upper translated_text) w3))
              \<lparr>translations_total :=
                 translations_total
                   (snd (cache_set e text s t (postprocess_text upper translated_text) w3)) + 1\<rparr>))"
    by (simp add: translate_valid [OF valid] g)
  ultimately show thesis
    using that by blast
qed

text \<open>
  Claim C2. Degrade to disabled: a failed connection leaves no client; without a
  client, or when the Redis command raises, \<open>cache_get\<close> returns \<open>None\<close> and
  \<open>cache_set\<close> returns \<open>False\<close> (both return values, never exceptions) and the server
  keeps what it held; and a validated request is then answered from the translator:
  with the translation when the translator returns one, and otherwise with the
  translator's own exception, never with an error of the cache.
\<close>

theorem cache_degrades_to_disabled:
  "\<not> redis_client (connect True w0) \<and>
   (\<not> redis_client w \<or> redis_get_raises e \<longrightarrow>
      fst (cache_get e text s t w) = None \<and>
      redis_db (snd (cache_get e text s t w)) = redis_db w) \<and>
   (\<not> redis_client w \<or> redis_setex_raises e \<longrightarrow>
      \<not> fst (cache_set e text s t v w) \<and>
      redis_db (snd (cache_set e text s t v w)) = redis_db w) \<and>
   (valid_request e text s t \<and>
    (\<not> redis_client w \<or> (redis_get_raises e \<and> redis_setex_raises e)) \<longrightarrow>
      fst (translate upper e (mk_request text s t) w) =
        (case fst (translator_translate e (preprocess_text text) s t w) of
           Inl err \<Rightarrow> (Translation_Failed err, 500)
         | Inr translated_text \<Rightarrow>
             (Translation (postprocess_text upper translated_text) s t
                (Some (get_model_name s t)) False, 200)) \<and>
      redis_db (snd (translate upper e (mk_request text s t) w)) = redis_db w)"
proof -
  have a: "\<not> redis_client (connect True w0)"
    by (simp add: connect_def)
  have b: "fst (cache_get e text s t w) = None \<and>
      redis_db (snd (cache_get e text s t w)) = redis_db w"
    if "\<not> redis_client w \<or> redis_get_raises e"
    using that cache_get_down [of w e "text" s t] cache_get_frame [of e "text" s t w] by simp
  have c: "\<not> fst (cache_set e text s t v w) \<and>
      redis_db (snd (cache_set e text s t v w)) = redis_db w"
    if "\<not> redis_client w \<or> redis_setex_raises e"
    using that cache_set_down [of w e "text" s t v] cache_set_False [of e "text" s t v w] by simp
  have d: "fst (translate upper e (mk_request text s t) w) =
        (case fst (translator_translate e (preprocess_text text) s t w) of
           Inl err \<Rightarrow> (Translation_Failed err, 500)
         | Inr translated_text \<Rightarrow>
             (Translation (postprocess_text upper translated_text) s t
                (Some (get_model_name s t)) False, 200)) \<and>
      redis_db (snd (translate upper e (mk_request text s t) w)) = redis_db w"
    if valid: "valid_request e text s t"
      and down: "\<not> redis_client w \<or> (redis_get_raises e \<and> redis_setex_raises e)"
  proof -
    have miss: "fst (cache_get e text s t w) = None"
      using down by (intro cache_get_down) auto
    obtain w2 where w2: "models w2 = models w" "redis_db w2 = redis_db w"
        "redis_client w2 = redis_client w"
      and tr: "translate upper e (mk_request text s t) w =
        (case translator_translate e (preprocess_text text) s t w2 of
           (Inl err, w3) \<Rightarrow> ((Translation_Failed err, 500), w3)
         | (Inr translated_text, w3) \<Rightarrow>
             ((Translation (postprocess_text upper translated_text) s t
                 (Some (get_model_name s t)) False, 200),
              (snd (cache_set e text s t (postprocess_text upper translated_text) w3))
                \<lparr>translations_total :=
                   translations_total
                     (snd (cache_set e text s t (postprocess_text upper translated_text) w3)) + 1\<rparr>))"
      by (rule translate_miss [OF valid miss, of upper])
    obtain r w3 where r: "translator_translate e (preprocess_text text) s t w2 = (r, w3)"
      by (cases "translator_translate e (preprocess_text text) s t w2") auto
    have same: "fst (translator_translate e (preprocess_text text) s t w) = r"
      using translator_translate_cong [OF w2(1), of e "preprocess_text text" s t] r by simp
    have w3: "redis_db w3 = redis_db w" "redis_client w3 = redis_client w"
      using translator_translate_frame [of e "preprocess_text text" s t w2] r w2 by simp_all
    show ?thesis
    proof (cases r)
      case (Inl err)
      then show ?thesis
        using tr r same w3 by simp
    next
      case (Inr y)
      have "\<not> fst (cache_set e text s t (postprocess_text upper y) w3)"
        using down w3 by (intro cache_set_down) auto
      then have "redis_db (snd (cache_set e text s t (postprocess_text upper y) w3)) = redis_db w3"
        by (rule cache_set_False)
      then show ?thesis
        using tr r same w3 Inr by simp
    qed
  qed
  show ?thesis
    by (intro conjI impI a b c d) auto
qed

lemma unreachable_valid: "valid_request (unreachable out) hello (py ''en'') (py ''hi'')"
  using hello_valid [of out]
  by (simp add: valid_request_def unreachable_def getenv_MAX_LENGTH_def answering_def)

theorem cache_degrades_to_disabled_witness:
  "\<not> redis_client (connect True fresh_world) \<and>
   fst (cache_get (unreachable []) hello (py ''en'') (py ''hi'') fresh_world) = None \<and>
   \<not> fst (cache_set (unreachable []) hello (py ''en'') (py ''hi'') (py ''Namaste'') fresh_world) \<and>
   fst (translate ascii_upper (unreachable (py ''namaste ,duniya''))
          (mk_request hello (py ''en'') (py ''hi'')) fresh_world) =
     (Translation (py ''Namaste, duniya'') (py ''en'') (py ''hi'') (Some (Some en_hi_model)) False,
      200) \<and>
   fst (translate ascii_upper (answering (py ''namaste ,duniya''))
          (mk_request hello (py ''en'') (py ''hi'')) (connect True fresh_world)) =
     (Translation (py ''Namaste, duniya'') (py ''en'') (py ''hi'') (Some (Some en_hi_model)) False,
      200)"
proof -
  have r: "redis_get_raises (unreachable out)" "redis_setex_raises (unreachable out)" for out
    by (simp_all add: unreachable_def)
  have t1: "fst (translator_translate (unreachable (py ''namaste ,duniya'')) (preprocess_text hello)
               (py ''en'') (py ''hi'') fresh_world) = Inr (py ''namaste ,duniya'')"
    by (simp add: translator_translate_def load_model_def en_hi_name fresh_world_def
        unreachable_def answering_def Let_def)
  have t2: "fst (translator_translate (answering (py ''namaste ,duniya'')) (preprocess_text hello)
               (py ''en'') (py ''hi'') (connect True fresh_world)) = Inr (py ''namaste ,duniya'')"
    by (simp add: translator_translate_def load_model_def en_hi_name fresh_world_def
        connect_def answering_def Let_def)
  have n: "\<not> redis_client (connect True fresh_world)"
    by (simp add: connect_def)
  show ?thesis
    using cache_degrades_to_disabled
            [of fresh_world fresh_world "unreachable []" hello "py ''en''" "py ''hi''"
               "py ''Namaste''" ascii_upper]
          cache_degrades_to_disabled
            [of fresh_world fresh_world "unreachable (py ''namaste ,duniya'')" hello "py ''en''"
               "py ''hi''" "[]" ascii_upper]
          cache_degrades_to_disabled
            [of fresh_world "connect True fresh_world" "answering (py ''namaste ,duniya'')" hello
               "py ''en''" "py ''hi''" "[]" ascii_upper]
          r unreachable_valid hello_valid n t1 t2 en_hi_name postprocess_namaste
    by simp
qed


lemma cache_set_calls:
  "\<exists>evs. calls (snd (cache_set e text s t v w)) = calls w @ evs"
  by (simp add: cache_set_def Let_def split: sum.splits)

lemma valid_key_encodable:
  "valid_request e text s t \<Longrightarrow> generate_key text s t = Inr key \<Longrightarrow> encodable key"
  using generate_key_encodable supported_encodable by (auto simp: valid_request_def)

lemma postprocess_Nil [simp]: "postprocess_text upper [] = []"
  by (simp add: postprocess_text_def)

text \<open>
  Claim C10. An empty string in the cache is a miss. For a validated request on a
  connected cache: when the key holds the empty string, \<open>cache_get\<close> returns \<open>None\<close>,
  the answer does not say \<^verbatim>\<open>cached: true\<close>, and the translator is called (a call to the
  model library is made); and a request that misses the cache and whose final text is
  empty is answered with that empty text and leaves the empty string under the key,
  when \<^verbatim>\<open>SETEX\<close> does not fail. So the stored entry is never served: every repeat that
  finds it calls the translator again.
\<close>

theorem empty_cached_value_is_a_miss:
  assumes valid: "valid_request e text s t"
    and client: "redis_client w"
    and key: "generate_key text s t = Inr key"
  shows "(redis_db w key = Some [] \<longrightarrow>
            fst (cache_get e text s t w) = None \<and>
            \<not> is_cached (fst (translate upper e (mk_request text s t) w)) \<and>
            list_ex engine_event
              (new_calls w (snd (translate upper e (mk_request text s t) w)))) \<and>
         (fst (cache_get e text s t w) = None \<and>
          fst (translator_translate e (preprocess_text text) s t w) = Inr y \<and>
          postprocess_text upper y = [] \<and> \<not> redis_setex_raises e \<and> 0 < ttl w \<longrightarrow>
            fst (translate upper e (mk_request text s t) w) =
              (Translation [] s t (Some (get_model_name s t)) False, 200) \<and>
            redis_db (snd (translate upper e (mk_request text s t) w)) key = Some [])"
proof (intro conjI impI)
  assume empty: "redis_db w key = Some []"
  show miss: "fst (cache_get e text s t w) = None"
    using empty key by (simp add: cache_get_def Let_def)
  obtain w2 where w2: "calls w2 = calls (snd (cache_get e text s t w))"
    and tr: "translate upper e (mk_request text s t) w =
      (case translator_translate e (preprocess_text text) s t w2 of
         (Inl err, w3) \<Rightarrow> ((Translation_Failed err, 500), w3)
       | (Inr translated_text, w3) \<Rightarrow>
           ((Translation (postprocess_text upper translated_text) s t
               (Some (get_model_name s t)) False, 200),
            (snd (cache_set e text s t (postprocess_text upper translated_text) w3))
              \<lparr>translations_total :=
                 translations_total
                   (snd (cache_set e text s t (postprocess_text upper translated_text) w3)) + 1\<rparr>))"
    by (rule translate_miss [OF valid miss, of upper])
  obtain r w3 where r: "translator_translate e (preprocess_text text) s t w2 = (r, w3)"
    by (cases "translator_translate e (preprocess_text text) s t w2") auto
  show "\<not> is_cached (fst (translate upper e (mk_request text s t) w))"
    using tr r by (cases r) (simp_all add: is_cached_def)
  have "(s, t) \<in> set SUPPORTED_PAIRS"
    using valid by (simp add: valid_request_def)
  then obtain ev evs where c3: "calls w3 = calls w2 @ ev # evs" "engine_event ev"
    using translator_translate_calls_out [of s t e "preprocess_text text" w2] r by auto
  have c2: "calls w2 = calls w @ [RedisGet key]"
    using w2 cache_get_calls [of e "text" s t w] client key by simp
  have "\<exists>more. calls (snd (translate upper e (mk_request text s t) w)) = calls w3 @ more"
  proof (cases r)
    case (Inl err)
    then show ?thesis using tr r by simp
  next
    case (Inr z)
    then show ?thesis
      using tr r cache_set_calls [of e "text" s t "postprocess_text upper z" w3] by auto
  qed
  then obtain more where
    "calls (snd (translate upper e (mk_request text s t) w)) =
       calls w @ RedisGet key # ev # evs @ more"
    using c2 c3(1) by auto
  then show "list_ex engine_event (new_calls w (snd (translate upper e (mk_request text s t) w)))"
    using c3(2) by (simp add: new_calls_def)
next
  assume h: "fst (cache_get e text s t w) = None \<and>
          fst (translator_translate e (preprocess_text text) s t w) = Inr y \<and>
          postprocess_text upper y = [] \<and> \<not> redis_setex_raises e \<and> 0 < ttl w"
  then have miss: "fst (cache_get e text s t w) = None"
    by simp
  obtain w2 where w2: "models w2 = models w" "redis_client w2 = redis_client w" "ttl w2 = ttl w"
    and tr: "translate upper e (mk_request text s t) w =
      (case translator_translate e (preprocess_text text) s t w2 of
         (Inl err, w3) \<Rightarrow> ((Translation_Failed err, 500), w3)
       | (Inr translated_text, w3) \<Rightarrow>
           ((Translation (postprocess_text upper translated_text) s t
               (Some (get_model_name s t)) False, 200),
            (snd (cache_set e text s t (postprocess_text upper translated_text) w3))
              \<lparr>translations_total :=
                 translations_total
                   (snd (cache_set e text s t (postprocess_text upper translated_text) w3)) + 1\<rparr>))"
    by (rule translate_miss [OF valid miss, of upper])
  obtain r w3 where r: "translator_translate e (preprocess_text text) s t w2 = (r, w3)"
    by (cases "translator_translate e (preprocess_text text) s t w2") auto
  have ry: "r = Inr y"
    using translator_translate_cong [OF w2(1), of e "preprocess_text text" s t] r h by simp
  have w3: "redis_client w3" "0 < ttl w3"
    using translator_translate_frame [of e "preprocess_text text" s t w2] r w2 client h
    by simp_all
  have "fst (cache_set e text s t [] w3)"
    using w3 h key valid_key_encodable [OF valid key] by (simp add: cache_set_True)
  then have "redis_db (snd (cache_set e text s t [] w3)) = (redis_db w3)(key \<mapsto> [])"
    using key by (rule cache_set_stored)
  then show "fst (translate upper e (mk_request text s t) w) =
      (Translation [] s t (Some (get_model_name s t)) False, 200)"
    and "redis_db (snd (translate upper e (mk_request text s t) w)) key = Some []"
    using tr r ry h by simp_all
qed

lemma second_call_empty:
  "translate ascii_upper (answering []) (mk_request hello (py ''en'') (py ''hi'')) (stored_world []) =
     ((Translation [] (py ''en'') (py ''hi'') (Some (Some en_hi_model)) False, 200),
      (stored_world [])
        \<lparr>cache_misses_total := 2, translations_total := 2,
         calls := calls (stored_world []) @
           [RedisGet hello_key, Generate (py ''en'', py ''hi'') (py ''Hello! world''),
            RedisSetex hello_key 86400 []]\<rparr>)"
  by (subst translate_valid [OF hello_valid])
     (simp add: cache_get_def hello_generate_key hello_key_encodable answering_def
        preprocess_hello translator_translate_def en_hi_name cache_set_def stored_world_def
        Let_def)

theorem empty_cached_value_is_a_miss_witness:
  "fst (translate ascii_upper (answering []) (mk_request hello (py ''en'') (py ''hi'')) fresh_world) =
     (Translation [] (py ''en'') (py ''hi'') (Some (Some en_hi_model)) False, 200) \<and>
   redis_db (snd (translate ascii_upper (answering []) (mk_request hello (py ''en'') (py ''hi''))
                    fresh_world)) hello_key = Some [] \<and>
   fst (cache_get (answering []) hello (py ''en'') (py ''hi'') (stored_world [])) = None \<and>
   \<not> is_cached (fst (translate ascii_upper (answering []) (mk_request hello (py ''en'') (py ''hi''))
                        (stored_world []))) \<and>
   list_ex engine_event
     (new_calls (stored_world [])
        (snd (translate ascii_upper (answering []) (mk_request hello (py ''en'') (py ''hi''))
                (stored_world []))))"
proof -
  have c1: "redis_client fresh_world" and c2: "redis_client (stored_world [])"
    by (simp_all add: fresh_world_def stored_world_def)
  have miss: "fst (cache_get (answering []) hello (py ''en'') (py ''hi'') fresh_world) = None"
    by (simp add: cache_get_def hello_generate_key fresh_world_def Let_def)
  have tr: "fst (translator_translate (answering []) (preprocess_text hello) (py ''en'') (py ''hi'')
                   fresh_world) = Inr []"
    by (simp add: translator_translate_def load_model_def en_hi_name fresh_world_def
        answering_def Let_def)
  have env: "\<not> redis_setex_raises (answering [])" "0 < ttl fresh_world"
    by (simp_all add: answering_def fresh_world_def)
  have db: "redis_db (stored_world []) hello_key = Some []"
    by (simp add: stored_world_def)
  show ?thesis
    using empty_cached_value_is_a_miss
            [OF hello_valid c1 hello_generate_key, where upper = ascii_upper and y = "[]"]
          empty_cached_value_is_a_miss
            [OF hello_valid c2 hello_generate_key, where upper = ascii_upper and y = "[]"]
          miss tr env db en_hi_name
    by simp
qed


lemma translate_Translation_valid:
  assumes "translate upper e (mk_request text s t) w = ((Translation v a b m c, n), w1)"
  shows "valid_request e text s t"
proof (rule ccontr)
  assume "\<not> valid_request e text s t"
  then have "fst (fst (translate upper e (mk_request text s t) w)) \<in>
      {Missing_Fields, Text_Too_Long (getenv_MAX_LENGTH e), Unsupported_Pair s t SUPPORTED_PAIRS}"
    by (auto simp: translate_def mk_request_def valid_request_def Let_def)
  then show False
    using assms by simp
qed

text \<open>
  Claim C1, amended. Idempotent caching: if a first call for (text, source, target)
  is answered from the model with a non-empty final text, and after it the connected
  cache holds that text under the key of the request, then a second call for the same
  (text, source, target), under the same maximum length and with a \<^verbatim>\<open>GET\<close> that does not
  fail, is answered with \<^verbatim>\<open>cached: true\<close> and the same text; its only external call is
  the \<^verbatim>\<open>GET\<close>: no model is loaded and none is called.
\<close>

theorem second_call_from_cache:
  assumes first: "translate upper e1 (mk_request text s t) w = ((Translation v s t m False, 200), w1)"
    and client: "redis_client w1"
    and key: "generate_key text s t = Inr key"
    and stored: "redis_db w1 key = Some v"
    and nonempty: "v \<noteq> []"
    and get: "\<not> redis_get_raises e2"
    and same_max: "getenv_MAX_LENGTH e2 = getenv_MAX_LENGTH e1"
  shows "translate upper e2 (mk_request text s t) w1 =
           ((Translation v s t None True, 200),
            w1\<lparr>calls := calls w1 @ [RedisGet key],
               cache_hits_total := cache_hits_total w1 + 1,
               translations_total := translations_total w1 + 1\<rparr>)"
proof -
  have "valid_request e1 text s t"
    using first by (rule translate_Translation_valid)
  then have valid: "valid_request e2 text s t"
    using same_max by (simp add: valid_request_def)
  have "encodable key"
    using valid key by (rule valid_key_encodable)
  then have "cache_get e2 text s t w1 = (Some v, w1\<lparr>calls := calls w1 @ [RedisGet key]\<rparr>)"
    using client key stored nonempty get by (simp add: cache_get_def Let_def)
  then show ?thesis
    by (simp add: translate_valid [OF valid])
qed

lemma namaste_encodable: "encodable (postprocess_text ascii_upper (py ''namaste ,duniya''))"
  by (simp add: postprocess_namaste) (simp add: encodable_def py_def)

theorem second_call_from_cache_witness:
  "translate ascii_upper (answering (py ''namaste ,duniya''))
       (mk_request hello (py ''en'') (py ''hi'')) fresh_world =
     ((Translation (py ''Namaste, duniya'') (py ''en'') (py ''hi'') (Some (Some en_hi_model)) False,
       200),
      stored_world (py ''Namaste, duniya'')) \<and>
   translate ascii_upper (answering (py ''namaste ,duniya''))
       (mk_request hello (py ''en'') (py ''hi'')) (stored_world (py ''Namaste, duniya'')) =
     ((Translation (py ''Namaste, duniya'') (py ''en'') (py ''hi'') None True, 200),
      (stored_world (py ''Namaste, duniya''))
        \<lparr>calls := calls (stored_world (py ''Namaste, duniya'')) @ [RedisGet hello_key],
         cache_hits_total := 1, translations_total := 2\<rparr>)"
proof -
  let ?e = "answering (py ''namaste ,duniya'')"
  let ?w1 = "stored_world (py ''Namaste, duniya'')"
  have f: "translate ascii_upper ?e (mk_request hello (py ''en'') (py ''hi'')) fresh_world =
      ((Translation (py ''Namaste, duniya'') (py ''en'') (py ''hi'') (Some (Some en_hi_model))
          False, 200), ?w1)"
    using first_call [OF namaste_encodable] by (simp add: postprocess_namaste)
  have client: "redis_client ?w1" and stored: "redis_db ?w1 hello_key = Some (py ''Namaste, duniya'')"
    by (simp_all add: stored_world_def)
  have nonempty: "py ''Namaste, duniya'' \<noteq> []"
    by (simp add: py_def)
  have get: "\<not> redis_get_raises ?e"
    by (simp add: answering_def)
  show ?thesis
    using f second_call_from_cache [OF f client hello_generate_key stored nonempty get refl]
    by (simp add: stored_world_def)
qed

theorem second_call_empty_counterexample:
  "translate ascii_upper (answering []) (mk_request hello (py ''en'') (py ''hi'')) fresh_world =
     ((Translation [] (py ''en'') (py ''hi'') (Some (Some en_hi_model)) False, 200),
      stored_world []) \<and>
   redis_client (stored_world []) \<and>
   generate_key hello (py ''en'') (py ''hi'') = Inr hello_key \<and>
   redis_db (stored_world []) hello_key = Some [] \<and>
   fst (translate ascii_upper (answering []) (mk_request hello (py ''en'') (py ''hi''))
          (stored_world [])) =
     (Translation [] (py ''en'') (py ''hi'') (Some (Some en_hi_model)) False, 200) \<and>
   new_calls (stored_world [])
     (snd (translate ascii_upper (answering []) (mk_request hello (py ''en'') (py ''hi''))
             (stored_world []))) =
     [RedisGet hello_key, Generate (py ''en'', py ''hi'') (py ''Hello! world''),
      RedisSetex hello_key 86400 []]"
proof -
  have "translate ascii_upper (answering []) (mk_request hello (py ''en'') (py ''hi''))
      fresh_world =
     ((Translation [] (py ''en'') (py ''hi'') (Some (Some en_hi_model)) False, 200),
      stored_world [])"
    using first_call [of "[]"] by simp
  then show ?thesis
    by (simp add: second_call_empty hello_generate_key new_calls_def) (simp add: stored_world_def)
qed


section \<open>Normalisation against its specification\<close>

lemma collapse_punct_runs_Cons:
  "collapse_punct_runs (c # cs) =
     (if is_punct c \<and> cs \<noteq> [] \<and> is_punct (hd cs) then collapse_punct_runs cs
      else c # collapse_punct_runs cs)"
proof (cases "is_punct c")
  case False
  then show ?thesis by (simp add: collapse_punct_runs.simps(2))
next
  case c: True
  show ?thesis
  proof (cases cs)
    case Nil
    then show ?thesis using c by (simp add: collapse_punct_runs.simps(2))
  next
    case (Cons d ds)
    show ?thesis
    proof (cases "is_punct d")
      case False
      then show ?thesis using c Cons by (simp add: collapse_punct_runs.simps(2))
    next
      case True
      then show ?thesis
        using c Cons by (cases "takeWhile is_punct ds") (simp_all add: collapse_punct_runs.simps(2))
    qed
  qed
qed

lemma collapse_punct_runs_sub_punct: "collapse_punct_runs s = sub_punct s"
  by (induction s) (simp_all add: collapse_punct_runs_Cons sub_punct_Cons)

lemma split_ws_dropWhile: "split_ws (dropWhile isspace s) = split_ws s"
  by (induction s) simp_all

lemma collapse_whitespace_word:
  "list_all (Not \<circ> isspace) w \<Longrightarrow> collapse_whitespace (w @ r) = w @ collapse_whitespace r"
  by (induction w) simp_all

lemma split_ws_eq_Nil: "split_ws r = [] \<longleftrightarrow> list_all isspace r"
proof (induction r)
  case Nil
  then show ?case by simp
next
  case (Cons a r)
  then show ?case by (cases "isspace a") simp_all
qed

lemma last_dropWhile: "dropWhile P xs \<noteq> [] \<Longrightarrow> last (dropWhile P xs) = last xs"
  by (induction xs) (auto split: if_splits)

lemma takeWhile_nonspace: "list_all (Not \<circ> isspace) (takeWhile (Not \<circ> isspace) cs)"
  by (induction cs) simp_all

text \<open>
  The shape of a string with its whitespace collapsed: the words joined by single
  spaces, after one space if the string began with whitespace and before one space if
  it ended with whitespace behind a word.
\<close>

lemma collapse_whitespace_shape:
  "collapse_whitespace x =
     (if x \<noteq> [] \<and> isspace (hd x) then [32] else []) @ join [32] (split_ws x) @
     (if split_ws x \<noteq> [] \<and> isspace (last x) then [32] else [])"
proof (induction "length x" arbitrary: x rule: less_induct)
  case less
  show ?case
  proof (cases x)
    case Nil
    then show ?thesis by simp
  next
    case (Cons c cs)
    show ?thesis
    proof (cases "isspace c")
      case True
      let ?d = "dropWhile isspace cs"
      have "length ?d < length x"
        using length_dropWhile_le [of isspace cs] Cons by simp
      then have ih: "collapse_whitespace ?d =
          (if ?d \<noteq> [] \<and> isspace (hd ?d) then [32] else []) @ join [32] (split_ws ?d) @
          (if split_ws ?d \<noteq> [] \<and> isspace (last ?d) then [32] else [])"
        by (rule less)
      have lead: "\<not> (?d \<noteq> [] \<and> isspace (hd ?d))"
        using hd_dropWhile [of isspace cs] by auto
      have sp: "split_ws ?d = split_ws x"
        using True Cons by (simp add: split_ws_dropWhile)
      have "last ?d = last x" if "split_ws x \<noteq> []"
      proof -
        have "?d \<noteq> []"
        proof
          assume e: "?d = []"
          have "split_ws ?d = []"
            unfolding e by simp
          then show False
            using that sp by simp
        qed
        then show ?thesis
          using last_dropWhile [of isspace cs] Cons by auto
      qed
      then show ?thesis
        using True Cons ih lead sp by auto
    next
      case False
      let ?w = "c # takeWhile (Not \<circ> isspace) cs"
      let ?r = "dropWhile (Not \<circ> isspace) cs"
      have x: "x = ?w @ ?r"
        using Cons by simp
      have w: "list_all (Not \<circ> isspace) ?w"
        using False takeWhile_nonspace by simp
      have cw: "collapse_whitespace x = ?w @ collapse_whitespace ?r"
        using collapse_whitespace_word [OF w, of ?r] x by simp
      have sp: "split_ws x = ?w # split_ws ?r"
        using False Cons by simp
      have "length ?r < length x"
        using length_dropWhile_le [of "Not \<circ> isspace" cs] Cons by simp
      then have ih: "collapse_whitespace ?r =
          (if ?r \<noteq> [] \<and> isspace (hd ?r) then [32] else []) @ join [32] (split_ws ?r) @
          (if split_ws ?r \<noteq> [] \<and> isspace (last ?r) then [32] else [])"
        by (rule less)
      have hd_r: "isspace (hd ?r)" if "?r \<noteq> []"
        using that hd_dropWhile [of "Not \<circ> isspace" cs] by simp
      have lastw: "\<not> isspace (last ?w)"
        using w last_in_set [of ?w] unfolding list_all_iff by fastforce
      have lead: "(if x \<noteq> [] \<and> isspace (hd x) then [32] else []) = []"
        using False Cons by simp
      show ?thesis
      proof (cases "?r = []")
        case True
        have xw: "x = ?w"
          using x True by simp
        have nl: "\<not> isspace (last x)"
          by (subst xw) (rule lastw)
        have "collapse_whitespace x = ?w" and "split_ws x = [?w]"
          using cw sp True by simp_all
        then show ?thesis
          unfolding lead using nl by simp
      next
        case r: False
        then have last_x: "last x = last ?r"
          using x by (metis last_appendR)
        have cr: "collapse_whitespace ?r =
            32 # join [32] (split_ws ?r) @
            (if split_ws ?r \<noteq> [] \<and> isspace (last ?r) then [32] else [])"
          using ih hd_r [OF r] r by simp
        show ?thesis
        proof (cases "split_ws ?r = []")
          case True
          then have "list_all isspace ?r"
            by (simp add: split_ws_eq_Nil)
          then have "isspace (last ?r)"
            using r last_in_set [of ?r] unfolding list_all_iff by blast
          then have "isspace (last x)"
            using last_x by simp
          moreover have "collapse_whitespace x = ?w @ [32]" and "split_ws x = [?w]"
            using cw sp cr True by simp_all
          ultimately show ?thesis
            unfolding lead by simp
        next
          case nonempty: False
          then obtain v vs where vs: "split_ws ?r = v # vs"
            by (cases "split_ws ?r") auto
          have "collapse_whitespace x =
              ?w @ 32 # join [32] (v # vs) @ (if isspace (last x) then [32] else [])"
            and "split_ws x = ?w # v # vs"
            using cw sp cr vs last_x by simp_all
          then show ?thesis
            unfolding lead by simp
        qed
      qed
    qed
  qed
qed

lemma strip_padded:
  assumes "z = [] \<or> (\<not> isspace (hd z) \<and> \<not> isspace (last z))"
    and "list_all isspace l" and "list_all isspace r"
  shows "strip (l @ z @ r) = z"
proof (cases "z = []")
  case True
  have "\<forall>c\<in>set (l @ r). isspace c"
    using assms(2,3) by (auto simp: list_all_iff)
  then have d: "dropWhile isspace (l @ r) = []"
    by (simp only: dropWhile_eq_Nil_conv)
  have "strip (l @ r) = []"
    unfolding strip_def d by simp
  then show ?thesis
    using True by simp
next
  case False
  have "dropWhile isspace (l @ z @ r) = dropWhile isspace (z @ r)"
    using assms(2) by (intro dropWhile_append2) (auto simp: list_all_iff)
  also have "\<dots> = z @ r"
    using assms(1) False by (intro dropWhile_hd_id) auto
  finally have a: "dropWhile isspace (l @ z @ r) = z @ r" .
  have "dropWhile isspace (rev r @ rev z) = dropWhile isspace (rev z)"
    using assms(3) by (intro dropWhile_append2) (auto simp: list_all_iff)
  also have "\<dots> = rev z"
    using assms(1) False by (intro dropWhile_hd_id) (auto simp: hd_rev)
  finally show ?thesis
    using a by (simp add: strip_def)
qed

lemma preprocess_text_refines: "preprocess_text x = normalize_spec x"
proof -
  let ?ws = "split_ws x"
  let ?l = "if x \<noteq> [] \<and> isspace (hd x) then [32] else []"
  let ?r = "if ?ws \<noteq> [] \<and> isspace (last x) then [32] else []"
  let ?J = "join [32] (map sub_punct ?ws)"
  have w: "wordlist (map sub_punct ?ws)"
    by (simp add: wordlist_map_sub_punct wordlist_split_ws)
  have "sub_punct (?l @ join [32] ?ws @ ?r) = ?l @ ?J @ ?r"
    using sub_punct_append_nonpunct [OF not_punct_space, of "join [32] ?ws" "[]"]
    by (simp add: sub_punct_Cons not_punct_space sub_punct_join)
  then have "normalize_spec x = strip (?l @ ?J @ ?r)"
    using collapse_whitespace_shape [of x]
    by (simp add: normalize_spec_def collapse_punct_runs_sub_punct)
  also have "\<dots> = ?J"
  proof (rule strip_padded)
    show "?J = [] \<or> (\<not> isspace (hd ?J) \<and> \<not> isspace (last ?J))"
      using join_ends [OF w] by (cases "map sub_punct ?ws = []") simp_all
  qed (simp_all add: isspace_space)
  finally show ?thesis
    by (simp add: preprocess_text_words)
qed

text \<open>
  Claim C8. \<open>preprocess_text\<close> is the normalisation of the specification: every run
  of whitespace collapsed to one space, every run of two or more of \<^verbatim>\<open>!?.\<close> collapsed to
  a single one, leading and trailing whitespace removed; the empty string is returned
  unchanged; and \<^verbatim>\<open>"Hello!!!  world"\<close> becomes \<^verbatim>\<open>"Hello! world"\<close>.
\<close>

theorem preprocess_text_is_normalize:
  "preprocess_text x = normalize_spec x \<and>
   preprocess_text [] = [] \<and>
   preprocess_text (py ''Hello!!!  world'') = py ''Hello! world''"
  using preprocess_hello by (simp add: preprocess_text_refines [symmetric] hello_def)
     (simp add: preprocess_text_def)


section \<open>Segmentation\<close>

lemma match_delim_parts:
  assumes "match_delim s = Some (m, rest)"
  shows "s = m @ rest"
proof -
  have "s = takeWhile is_punct s @ takeWhile isspace (dropWhile is_punct s) @
      dropWhile isspace (dropWhile is_punct s)"
    by simp
  then show ?thesis
    using assms by (auto simp: match_delim_def Let_def split: if_splits)
qed

lemma concat_re_split: "concat (re_split cur s) = cur @ s"
proof (induction cur s rule: re_split.induct)
  case (1 cur)
  then show ?case by simp
next
  case (2 cur c cs)
  show ?case
  proof (cases "match_delim (c # cs)")
    case None
    then show ?thesis
      using 2 by (simp add: re_split.simps(2))
  next
    case (Some a)
    obtain m rest where a: "a = (m, rest)"
      by (cases a)
    have ih: "concat (re_split [] rest) = rest"
      using 2 Some a by simp
    have unfolded: "re_split cur (c # cs) = cur # m # re_split [] rest"
      using Some a by (simp add: re_split.simps(2))
    have "c # cs = m @ rest"
      using Some a by (intro match_delim_parts) simp
    then show ?thesis
      unfolding unfolded using ih by simp
  qed
qed

lemma concat_full_sentences: "concat (full_sentences ss) = concat ss"
  by (induction ss rule: full_sentences.induct) simp_all

lemma chunk_step_full:
  "chunk_step m sentence punctuation st = chunk_step m (sentence @ punctuation) [] st"
  by (simp add: chunk_step_def)

lemma chunk_loop_fold:
  "chunk_loop m ss st = fold (\<lambda>f. chunk_step m f []) (full_sentences ss) st"
proof (induction m ss st rule: chunk_loop.induct)
  case (3 m sentence punctuation rest st)
  then show ?case
    using chunk_step_full [of m sentence punctuation st] by simp
qed simp_all

lemma chunk_fold_invariant:
  assumes "set fs \<subseteq> set F" and "seg_ok m F cur"
  shows "\<exists>segs. fst (fold (\<lambda>f. chunk_step m f []) fs (chunks, cur)) = chunks @ map strip segs \<and>
           concat segs @ snd (fold (\<lambda>f. chunk_step m f []) fs (chunks, cur)) = cur @ concat fs \<and>
           list_all (\<lambda>s. s \<noteq> [] \<and> seg_ok m F s) segs \<and>
           seg_ok m F (snd (fold (\<lambda>f. chunk_step m f []) fs (chunks, cur)))"
  using assms
proof (induction fs arbitrary: chunks cur)
  case Nil
  have "fst (chunks, cur) = chunks @ map strip [] \<and> concat [] @ snd (chunks, cur) = cur @ concat [] \<and>
      list_all (\<lambda>s. s \<noteq> [] \<and> seg_ok m F s) [] \<and> seg_ok m F (snd (chunks, cur))"
    using Nil.prems(2) by simp
  then show ?case
    unfolding fold_simps id_apply by blast
next
  case (Cons f fs)
  have F: "set fs \<subseteq> set F" and fF: "f \<in> set F"
    using Cons.prems(1) by simp_all
  show ?case
  proof (cases "int (length cur) + int (length f) \<le> m")
    case True
    then have step: "chunk_step m f [] (chunks, cur) = (chunks, cur @ f)"
      by (simp add: chunk_step_def)
    have "seg_ok m F (cur @ f)"
      using True by (simp add: seg_ok_def)
    from Cons.IH [OF F this, of chunks] show ?thesis
      by (simp add: step)
  next
    case False
    let ?flush = "if cur \<noteq> [] then [cur] else []"
    let ?st = "fold (\<lambda>f. chunk_step m f []) fs (chunks @ map strip ?flush, f)"
    have step: "chunk_step m f [] (chunks, cur) = (chunks @ map strip ?flush, f)"
      using False by (simp add: chunk_step_def)
    have "seg_ok m F f"
      using fF by (auto simp: seg_ok_def)
    from Cons.IH [OF F this, of "chunks @ map strip ?flush"]
    obtain segs where s:
      "fst ?st = (chunks @ map strip ?flush) @ map strip segs"
      "concat segs @ snd ?st = f @ concat fs"
      "list_all (\<lambda>s. s \<noteq> [] \<and> seg_ok m F s) segs"
      "seg_ok m F (snd ?st)"
      by blast
    have "list_all (\<lambda>s. s \<noteq> [] \<and> seg_ok m F s) (?flush @ segs)"
      using s(3) Cons.prems(2) by simp
    moreover have "concat (?flush @ segs) @ snd ?st = cur @ concat (f # fs)"
      using s(2) by simp
    moreover have "fst ?st = chunks @ map strip (?flush @ segs)"
      using s(1) by simp
    ultimately show ?thesis
      using s(4) unfolding fold_simps comp_apply step by blast
  qed
qed

lemma strip_decomp:
  "\<exists>l r. list_all isspace l \<and> list_all isspace r \<and> s = l @ strip s @ r"
proof -
  let ?d = "dropWhile isspace s"
  let ?t = "rev (takeWhile isspace (rev ?d))"
  have 1: "s = takeWhile isspace s @ ?d"
    by simp
  have "strip s @ ?t = rev (takeWhile isspace (rev ?d) @ dropWhile isspace (rev ?d))"
    by (simp only: strip_def rev_append)
  also have "\<dots> = rev (rev ?d)"
    by (simp only: takeWhile_dropWhile_id)
  finally have 2: "?d = strip s @ ?t"
    by simp
  have 3: "s = takeWhile isspace s @ strip s @ ?t"
    by (subst 1, subst 2) simp
  have "list_all isspace (takeWhile isspace s)" and "list_all isspace ?t"
    by (auto simp: list_all_iff dest: set_takeWhileD)
  then show ?thesis
    using 3 by blast
qed

lemma length_strip_le: "length (strip s) \<le> length s"
proof -
  obtain l r where "s = l @ strip s @ r"
    using strip_decomp by blast
  then have "length s = length l + (length (strip s) + length r)"
    by (metis length_append)
  then show ?thesis
    by simp
qed

lemma weave_prepend: "weave ((r @ g) # gs) cs = r @ weave (g # gs) cs"
  by (cases cs) simp_all

lemma weave_exists:
  "\<exists>gaps. length gaps = Suc (length S) \<and> list_all (list_all isspace) gaps \<and>
          weave gaps (map strip S) = concat S"
proof (induction S)
  case Nil
  have "length [[]::pystr] = Suc (length ([]::pystr list)) \<and>
      list_all (list_all isspace) [[]] \<and> weave [[]] (map strip []) = concat []"
    by simp
  then show ?case by blast
next
  case (Cons s S)
  then obtain gaps where g: "length gaps = Suc (length S)"
      "list_all (list_all isspace) gaps" "weave gaps (map strip S) = concat S"
    by blast
  then obtain g0 gs where gaps: "gaps = g0 # gs"
    by (cases gaps) auto
  obtain l r where lr: "list_all isspace l" "list_all isspace r" "s = l @ strip s @ r"
    using strip_decomp by blast
  have "weave (l # (r @ g0) # gs) (map strip (s # S)) = l @ strip s @ r @ concat S"
    using g(3) gaps by (simp add: weave_prepend)
  also have "\<dots> = (l @ strip s @ r) @ concat S"
    by simp
  also have "\<dots> = concat (s # S)"
    using lr(3) by simp
  finally have "weave (l # (r @ g0) # gs) (map strip (s # S)) = concat (s # S)" .
  moreover have "length (l # (r @ g0) # gs) = Suc (length (s # S))"
    using g(1) gaps by simp
  moreover have "list_all (list_all isspace) (l # (r @ g0) # gs)"
    using g(2) gaps lr by simp
  ultimately show ?case by blast
qed


lemma chunk_text_segments:
  assumes "0 \<le> m" and "\<not> int (length text) \<le> m"
  shows "\<exists>S. chunk_text text m = map strip S \<and> concat S = text \<and>
           list_all (\<lambda>s. s \<noteq> [] \<and> seg_ok m (full_sentences (re_split [] text)) s) S"
proof -
  let ?F = "full_sentences (re_split [] text)"
  let ?st = "fold (\<lambda>f. chunk_step m f []) ?F ([], [])"
  have "seg_ok m ?F []"
    using assms(1) by (simp add: seg_ok_def)
  with chunk_fold_invariant [of ?F ?F m "[]" "[]"]
  obtain segs where s: "fst ?st = map strip segs" "concat segs @ snd ?st = concat ?F"
      "list_all (\<lambda>s. s \<noteq> [] \<and> seg_ok m ?F s) segs" "seg_ok m ?F (snd ?st)"
    by auto
  let ?S = "segs @ (if snd ?st \<noteq> [] then [snd ?st] else [])"
  have "concat ?F = text"
    by (simp add: concat_full_sentences concat_re_split)
  then have "concat ?S = text"
    using s(2) by auto
  moreover have "chunk_text text m = map strip ?S"
    using assms(2) s(1) by (simp add: chunk_text_def chunk_loop_fold Let_def)
  moreover have "list_all (\<lambda>s. s \<noteq> [] \<and> seg_ok m ?F s) ?S"
    using s(3,4) by simp
  ultimately show ?thesis
    by blast
qed

text \<open>
  Claim C7. Segmentation: for every text and every limit of at least 1, \<open>chunk_text\<close>
  returns a list that is not empty; it is \<open>[text]\<close> when the text is within the limit;
  the text is the chunks in their order with whitespace alone before, between and
  behind them, so the chunks reproduce the text but for whitespace at their borders;
  and every chunk is within the limit unless it is a single sentence of the text, with
  its delimiter, that is longer than the limit.
\<close>

theorem chunk_text_segmentation:
  assumes "1 \<le> max_length"
  shows "chunk_text text max_length \<noteq> [] \<and>
         (int (length text) \<le> max_length \<longrightarrow> chunk_text text max_length = [text]) \<and>
         (\<exists>gaps. length gaps = Suc (length (chunk_text text max_length)) \<and>
                  list_all (list_all isspace) gaps \<and>
                  weave gaps (chunk_text text max_length) = text) \<and>
         list_all (\<lambda>c. int (length c) \<le> max_length \<or> oversized_sentence text max_length c)
           (chunk_text text max_length)"
proof (cases "int (length text) \<le> max_length")
  case True
  have "length [[], []::pystr] = Suc (length [text]) \<and> list_all (list_all isspace) [[], []] \<and>
      weave [[], []] [text] = text"
    by simp
  then have "\<exists>gaps. length gaps = Suc (length [text]) \<and> list_all (list_all isspace) gaps \<and>
      weave gaps [text] = text"
    by blast
  then show ?thesis
    using True by (simp add: chunk_text_def)
next
  case False
  let ?F = "full_sentences (re_split [] text)"
  obtain S where S: "chunk_text text max_length = map strip S" "concat S = text"
      "list_all (\<lambda>s. s \<noteq> [] \<and> seg_ok max_length ?F s) S"
    using chunk_text_segments [OF _ False] assms by auto
  have "text \<noteq> []"
    using False assms by auto
  then have "S \<noteq> []"
    using S(2) by auto
  then have nonempty: "chunk_text text max_length \<noteq> []"
    using S(1) by simp
  have gaps: "\<exists>gaps. length gaps = Suc (length (chunk_text text max_length)) \<and>
      list_all (list_all isspace) gaps \<and> weave gaps (chunk_text text max_length) = text"
    using weave_exists [of S] S(1,2) by simp
  have "int (length (strip s)) \<le> max_length \<or> oversized_sentence text max_length (strip s)"
    if "s \<in> set S" for s
  proof -
    have "seg_ok max_length ?F s"
      using S(3) that by (simp add: list_all_iff)
    then show ?thesis
      using length_strip_le [of s]
      by (auto simp: seg_ok_def oversized_sentence_def list_ex_iff)
  qed
  then have "list_all (\<lambda>c. int (length c) \<le> max_length \<or> oversized_sentence text max_length c)
      (chunk_text text max_length)"
    unfolding S(1) by (simp add: list_all_iff)
  then show ?thesis
    using False nonempty gaps by simp
qed

lemma chunk_text_example:
  "chunk_text example_text 12 =
     [py ''Hi there.'', py ''How are you?'', py ''I am fine!!'', py ''ok.'']"
  by (simp add: chunk_text_def example_text_def py_def re_split.simps(2) match_delim_def
      is_punct_def isspace_def chunk_step_def strip_def Let_def)

theorem chunk_text_segmentation_witness:
  "chunk_text example_text 12 =
     [py ''Hi there.'', py ''How are you?'', py ''I am fine!!'', py ''ok.''] \<and>
   chunk_text (py ''ok.'') 12 = [py ''ok.''] \<and>
   (\<exists>gaps. length gaps = Suc (length (chunk_text example_text 12)) \<and>
           list_all (list_all isspace) gaps \<and>
           weave gaps (chunk_text example_text 12) = example_text) \<and>
   list_all (\<lambda>c. int (length c) \<le> 12 \<or> oversized_sentence example_text 12 c)
     (chunk_text example_text 12)"
proof -
  have "int (length (py ''ok.'')) \<le> 12"
    by (simp add: py_def)
  then show ?thesis
    using chunk_text_segmentation [of 12 example_text]
          chunk_text_segmentation [of 12 "py ''ok.''"]
          chunk_text_example
    by simp
qed


end
